theory Spec2Isabelle
  imports Complex_Main "HOL-Library.Word"
begin

section \<open>Dynamic Speech Trimmer: the processing helpers of audioProcessor.js\<close>

text \<open>
  Conventions of the embedding.
  \<^item> A sample is a \<open>real\<close>: the finite values a Float32Array can hold, with the
    rounding of float arithmetic on samples left out. NaN and the infinities are not values
    of the model.
  \<^item> A JavaScript number that the code uses as an index, a length or a count is an \<open>int\<close>
    (or a \<open>nat\<close> where it is a loop counter starting at 0).
  \<^item> A segment is the two-element array \<open>[start, end]\<close> of the source, here a pair.
  \<^item> An exception of the source is the \<open>Inl\<close> branch of a result.
\<close>

type_synonym segment = "int \<times> int"

subsection \<open>detectSpeechSegments\<close>

text \<open>The local variables of the scan loop (lines 98-102 of audioProcessor.js).\<close>

record scan_state =
  segments :: "segment list"
  inSilence :: bool
  silenceRun :: int
  currentSpeechStart :: int

definition scan_init :: scan_state where
  "scan_init = \<lparr>segments = [], inSilence = False, silenceRun = 0, currentSpeechStart = 0\<rparr>"

text \<open>The body of the scan loop at index \<open>i\<close> (lines 105-124).\<close>

definition scan_step :: "real list \<Rightarrow> real \<Rightarrow> int \<Rightarrow> scan_state \<Rightarrow> nat \<Rightarrow> scan_state" where
  "scan_step channelData silenceThreshold minSilenceSamples st i =
     (let amp = \<bar>channelData ! i\<bar> in
      if amp < silenceThreshold then
        (let st1 = st\<lparr>silenceRun := silenceRun st + 1\<rparr> in
         if \<not> inSilence st1 \<and> silenceRun st1 \<ge> minSilenceSamples then
           (let speechEnd = max 0 (int i - silenceRun st1);
                st2 = (if speechEnd > currentSpeechStart st1
                       then st1\<lparr>segments := segments st1 @ [(currentSpeechStart st1, speechEnd)]\<rparr>
                       else st1)
            in st2\<lparr>inSilence := True\<rparr>)
         else st1)
      else
        (let st1 = (if inSilence st then st\<lparr>currentSpeechStart := int i\<rparr> else st)
         in st1\<lparr>inSilence := False, silenceRun := 0\<rparr>))"

text \<open>The state of the scan loop after its first \<open>k\<close> iterations (indices \<open>0 .. k - 1\<close>).\<close>

primrec scan_upto :: "real list \<Rightarrow> real \<Rightarrow> int \<Rightarrow> nat \<Rightarrow> scan_state" where
  "scan_upto channelData silenceThreshold minSilenceSamples 0 = scan_init"
| "scan_upto channelData silenceThreshold minSilenceSamples (Suc i) =
     scan_step channelData silenceThreshold minSilenceSamples
       (scan_upto channelData silenceThreshold minSilenceSamples i) i"

text \<open>
  The segment list after the scan, the tail handling and the fallback (lines 97-135): what
  the merge loop receives.
\<close>

definition raw_segments :: "real list \<Rightarrow> real \<Rightarrow> int \<Rightarrow> segment list" where
  "raw_segments channelData silenceThreshold minSilenceSamples =
     (let N = int (length channelData);
          st = scan_upto channelData silenceThreshold minSilenceSamples (length channelData);
          segs1 = (if \<not> inSilence st \<and> currentSpeechStart st < N
                   then segments st @ [(currentSpeechStart st, N)]
                   else segments st);
          segs2 = (if length segs1 = 0 then segs1 @ [(0, N)] else segs1)
      in segs2)"

text \<open>
  The body of the merge loop (lines 141-150). \<open>prev[1] = seg[1]\<close> writes into the array
  that is the last entry of \<open>merged\<close>; the same array is an earlier entry of \<open>segments\<close>,
  which the loop does not read again.
\<close>

definition merge_step :: "int \<Rightarrow> segment list \<Rightarrow> segment \<Rightarrow> segment list" where
  "merge_step MERGE_GAP_SAMPLES merged seg =
     (if length merged = 0 then merged @ [seg]
      else
        (let prev = last merged in
         if fst seg - snd prev \<le> MERGE_GAP_SAMPLES
         then butlast merged @ [(fst prev, snd seg)]
         else merged @ [seg]))"

definition detectSpeechSegments :: "real list \<Rightarrow> int \<Rightarrow> real \<Rightarrow> int \<Rightarrow> segment list" where
  "detectSpeechSegments channelData sampleRate silenceThreshold minSilenceSamples =
     (let segs = raw_segments channelData silenceThreshold minSilenceSamples;
          MERGE_GAP_SAMPLES = \<lfloor>real_of_int sampleRate * 0.03\<rfloor>
      in foldl (merge_step MERGE_GAP_SAMPLES) [] segs)"


subsection \<open>Typed arrays\<close>

text \<open>
  \<open>RangeError\<close> is the exception of the typed-array and DataView operations. \<open>NaNSample\<close>
  stands for a sample that the source computes from \<open>undefined\<close> (a read past the end of a
  typed array): JavaScript stores NaN and goes on, the model has no NaN and stops there.
\<close>

datatype error = RangeError | NaNSample

text \<open>
  \<open>a.subarray(start, stop)\<close>: a negative index counts from the end, both indices are clamped
  to the array, and an empty range gives an empty view. The views of the source are only
  read, so a view is the list of its elements; \<open>.slice()\<close> copies it.
\<close>

definition subarray :: "real list \<Rightarrow> int \<Rightarrow> int \<Rightarrow> real list" where
  "subarray a start stop =
     (let len = int (length a);
          relStart = (if start < 0 then max (len + start) 0 else min start len);
          relStop = (if stop < 0 then max (len + stop) 0 else min stop len);
          newLength = max (relStop - relStart) 0
      in take (nat newLength) (drop (nat relStart) a))"

text \<open>\<open>out.set(view, offset)\<close>: throws when the view does not fit.\<close>

definition typed_set :: "real list \<Rightarrow> real list \<Rightarrow> int \<Rightarrow> error + real list" where
  "typed_set out view offset =
     (if offset < 0 \<or> offset + int (length view) > int (length out) then Inl RangeError
      else Inr (take (nat offset) out @ view @ drop (nat offset + length view) out))"

subsection \<open>buildOutputBufferFromSegments\<close>

text \<open>The value of \<open>total\<close> after the first \<open>k\<close> iterations of the loop of lines 169-178.\<close>

primrec total_upto :: "segment list \<Rightarrow> int \<Rightarrow> nat \<Rightarrow> int" where
  "total_upto segs overlapSamples 0 = 0"
| "total_upto segs overlapSamples (Suc idx) =
     (let (s, e) = segs ! idx;
          len = e - s;
          total = total_upto segs overlapSamples idx + len
      in if idx > 0 then
           (let prevLen = snd (segs ! (idx - 1)) - fst (segs ! (idx - 1));
                ov = min overlapSamples (min prevLen len)
            in total - ov)
         else total)"

text \<open>
  The crossfade loop of lines 202-208 after its first \<open>k\<close> iterations. An index outside
  \<open>out\<close> reads \<open>undefined\<close> and its write is ignored, so that iteration changes nothing.
\<close>

primrec crossfade_upto :: "real list \<Rightarrow> real list \<Rightarrow> int \<Rightarrow> int \<Rightarrow> nat \<Rightarrow> error + real list" where
  "crossfade_upto out segView writePos ov 0 = Inr out"
| "crossfade_upto out segView writePos ov (Suc i) =
     (case crossfade_upto out segView writePos ov i of
        Inl err \<Rightarrow> Inl err
      | Inr out' \<Rightarrow>
          if writePos + int i < 0 \<or> writePos + int i \<ge> int (length out') then Inr out'
          else if i \<ge> length segView then Inl NaNSample
          else
            (let a = out' ! nat (writePos + int i);
                 b = segView ! i;
                 fadeIn = (if ov = 0 then 1 else real i / real_of_int ov);
                 fadeOut = 1 - fadeIn
             in Inr (out'[nat (writePos + int i) := a * fadeOut + b * fadeIn])))"

text \<open>
  The stitching loop of lines 183-214 after its first \<open>k\<close> iterations: the output array and
  the write cursor \<open>writePos\<close>.
\<close>

primrec stitch_upto ::
  "real list \<Rightarrow> segment list \<Rightarrow> int \<Rightarrow> real list \<Rightarrow> nat \<Rightarrow> error + (real list \<times> int)" where
  "stitch_upto source segs overlapSamples out0 0 = Inr (out0, 0)"
| "stitch_upto source segs overlapSamples out0 (Suc idx) =
     (case stitch_upto source segs overlapSamples out0 idx of
        Inl err \<Rightarrow> Inl err
      | Inr (out, writePos) \<Rightarrow>
          (let (s, e) = segs ! idx;
               segLen = e - s;
               segView = subarray source s e
           in if idx = 0 then
                (case typed_set out segView writePos of
                   Inl err \<Rightarrow> Inl err
                 | Inr out1 \<Rightarrow> Inr (out1, writePos + segLen))
              else
                (let (ps, pe) = segs ! (idx - 1);
                     prevLen = pe - ps;
                     ov = min overlapSamples (min prevLen segLen);
                     writePos1 = writePos - ov
                 in case crossfade_upto out segView writePos1 ov (nat ov) of
                      Inl err \<Rightarrow> Inl err
                    | Inr out1 \<Rightarrow>
                        (case typed_set out1 (subarray segView ov (int (length segView)))
                                (writePos1 + ov) of
                           Inl err \<Rightarrow> Inl err
                         | Inr out2 \<Rightarrow> Inr (out2, writePos1 + segLen)))))"

text \<open>\<open>new Float32Array(total)\<close> throws for a negative length and is filled with zeros.\<close>

definition buildOutputBufferFromSegments ::
  "real list \<Rightarrow> segment list \<Rightarrow> int \<Rightarrow> error + real list" where
  "buildOutputBufferFromSegments source segs overlapSamples =
     (if length segs = 0 then Inr []
      else if length segs = 1 then (let (s, e) = segs ! 0 in Inr (subarray source s e))
      else
        (let total = total_upto segs overlapSamples (length segs) in
         if total < 0 then Inl RangeError
         else
           (case stitch_upto source segs overlapSamples (replicate (nat total) 0) (length segs) of
              Inl err \<Rightarrow> Inl err
            | Inr (out, writePos) \<Rightarrow> Inr out)))"

subsection \<open>DataView\<close>

type_synonym byte = "8 word"

definition then_do :: "error + 'a \<Rightarrow> ('a \<Rightarrow> error + 'b) \<Rightarrow> error + 'b" where
  "then_do r f = (case r of Inl err \<Rightarrow> Inl err | Inr x \<Rightarrow> f x)"

text \<open>A write of the bytes \<open>bs\<close> at \<open>offset\<close>: a DataView setter throws when it does not fit.\<close>

definition set_bytes :: "byte list \<Rightarrow> nat \<Rightarrow> byte list \<Rightarrow> error + byte list" where
  "set_bytes view offset bs =
     (if offset + length bs > length view then Inl RangeError
      else Inr (take offset view @ bs @ drop (offset + length bs) view))"

text \<open>
  The little-endian bytes of a value taken modulo \<open>2 ^ 16\<close> and \<open>2 ^ 32\<close>, as ToUint16,
  ToInt16 and ToUint32 do.
\<close>

definition u16le :: "int \<Rightarrow> byte list" where
  "u16le v = (let w = (word_of_int v :: 16 word) in [ucast w, ucast (drop_bit 8 w)])"

definition u32le :: "int \<Rightarrow> byte list" where
  "u32le v =
     (let w = (word_of_int v :: 32 word)
      in [ucast w, ucast (drop_bit 8 w), ucast (drop_bit 16 w), ucast (drop_bit 24 w)])"

text \<open>The conversion of a finite number to an integer: the fraction is dropped.\<close>

definition js_truncate :: "real \<Rightarrow> int" where
  "js_truncate x = (if x < 0 then \<lceil>x\<rceil> else \<lfloor>x\<rfloor>)"

definition setUint8 :: "byte list \<Rightarrow> nat \<Rightarrow> int \<Rightarrow> error + byte list" where
  "setUint8 view offset v = set_bytes view offset [word_of_int v]"

text \<open>Every call of the source passes \<open>littleEndian = true\<close>.\<close>

definition setUint16 :: "byte list \<Rightarrow> nat \<Rightarrow> int \<Rightarrow> error + byte list" where
  "setUint16 view offset v = set_bytes view offset (u16le v)"

definition setUint32 :: "byte list \<Rightarrow> nat \<Rightarrow> int \<Rightarrow> error + byte list" where
  "setUint32 view offset v = set_bytes view offset (u32le v)"

definition setInt16 :: "byte list \<Rightarrow> nat \<Rightarrow> real \<Rightarrow> error + byte list" where
  "setInt16 view offset x = set_bytes view offset (u16le (js_truncate x))"

subsection \<open>writeString and floatTo16BitPCM\<close>

fun writeString :: "byte list \<Rightarrow> nat \<Rightarrow> string \<Rightarrow> error + byte list" where
  "writeString view offset [] = Inr view"
| "writeString view offset (c # str) =
     (case setUint8 view offset (of_char c) of
        Inl err \<Rightarrow> Inl err
      | Inr view' \<Rightarrow> writeString view' (offset + 1) str)"

fun floatTo16BitPCM :: "byte list \<Rightarrow> nat \<Rightarrow> real list \<Rightarrow> error + byte list" where
  "floatTo16BitPCM view offset [] = Inr view"
| "floatTo16BitPCM view offset (x # input) =
     (let s = max (- 1) (min 1 x) in
      case setInt16 view offset (if s < 0 then s * 32768 else s * 32767) of
        Inl err \<Rightarrow> Inl err
      | Inr view' \<Rightarrow> floatTo16BitPCM view' (offset + 2) input)"

subsection \<open>AudioBuffer\<close>

text \<open>
  An AudioBuffer: its sample rate, its \<open>length\<close> in frames and its channels
  (\<open>numberOfChannels\<close> is their number). \<open>IndexSizeError\<close> is the exception of a channel
  index that does not exist.
\<close>

record audio_buffer =
  buf_sampleRate :: int
  buf_length :: nat
  buf_channels :: "real list list"

definition numberOfChannels :: "audio_buffer \<Rightarrow> nat" where
  "numberOfChannels b = length (buf_channels b)"

text \<open>
  \<open>audioBuffer.copyFromChannel(dest, ch)\<close> into a fresh \<open>new Float32Array(length)\<close>: the
  frames the channel has are copied, the others stay 0. A missing channel throws
  (\<open>RangeError\<close> stands for the IndexSizeError of the Web Audio API).
\<close>

definition copyFromChannel :: "audio_buffer \<Rightarrow> nat \<Rightarrow> error + real list" where
  "copyFromChannel b ch =
     (if ch \<ge> numberOfChannels b then Inl RangeError
      else
        (let c = buf_channels b ! ch
         in Inr (take (buf_length b) c @ replicate (buf_length b - length c) 0)))"

definition getChannelData :: "audio_buffer \<Rightarrow> nat \<Rightarrow> error + real list" where
  "getChannelData b ch =
     (if ch \<ge> numberOfChannels b then Inl RangeError else Inr (buf_channels b ! ch))"

text \<open>
  \<open>audioContext.createBuffer(1, length, sampleRate)\<close> followed by \<open>copyToChannel(data, 0)\<close>
  with \<open>data.length = length\<close>: a mono buffer holding a copy of \<open>data\<close>. In a browser
  \<open>createBuffer\<close> throws NotSupportedError for a length of 0 and for a sample rate it does
  not support; that is not modelled. With at least one frame and the sample rate of an
  AudioBuffer that exists, which is what the pipeline passes for such an input,
  \<open>createBuffer\<close> does not throw.
\<close>

definition createMonoBuffer :: "real list \<Rightarrow> int \<Rightarrow> audio_buffer" where
  "createMonoBuffer data sampleRate =
     \<lparr>buf_sampleRate = sampleRate, buf_length = length data, buf_channels = [data]\<rparr>"

subsection \<open>audioBufferToWavBlob\<close>

definition audioBufferToWavBlob :: "audio_buffer \<Rightarrow> error + byte list" where
  "audioBufferToWavBlob buffer =
     (let numChannels = 1;
          sampleRate = buf_sampleRate buffer
      in then_do (getChannelData buffer 0) (\<lambda>channelData.
           (let samples = int (length channelData);
                bytesPerSample = 2;
                blockAlign = numChannels * bytesPerSample;
                byteRate = sampleRate * blockAlign;
                dataSize = samples * bytesPerSample;
                headerSize = 44;
                totalSize = headerSize + dataSize;
                view0 = replicate (nat totalSize) (0 :: byte)
            in then_do (writeString view0 0 ''RIFF'') (\<lambda>view.
               then_do (setUint32 view 4 (36 + dataSize)) (\<lambda>view.
               then_do (writeString view 8 ''WAVE'') (\<lambda>view.
               then_do (writeString view 12 ''fmt '') (\<lambda>view.
               then_do (setUint32 view 16 16) (\<lambda>view.
               then_do (setUint16 view 20 1) (\<lambda>view.
               then_do (setUint16 view 22 numChannels) (\<lambda>view.
               then_do (setUint32 view 24 sampleRate) (\<lambda>view.
               then_do (setUint32 view 28 byteRate) (\<lambda>view.
               then_do (setUint16 view 32 blockAlign) (\<lambda>view.
               then_do (setUint16 view 34 16) (\<lambda>view.
               then_do (writeString view 36 ''data'') (\<lambda>view.
               then_do (setUint32 view 40 dataSize) (\<lambda>view.
               floatTo16BitPCM view 44 channelData))))))))))))))))"

subsection \<open>msToSamples and downmixToMono\<close>

text \<open>
  \<open>(ms / 1000) * sampleRate\<close> is double arithmetic: the quotient is rounded to a double,
  and so is the product. \<open>dbl\<close> stands for that rounding and is a parameter of the model.
  \<open>Math.round\<close> rounds a half up, as \<open>round\<close> does, and is exact on a double.
\<close>

definition msToSamples :: "(real \<Rightarrow> real) \<Rightarrow> real \<Rightarrow> int \<Rightarrow> int" where
  "msToSamples dbl ms sampleRate =
     max 0 (round (dbl (dbl (ms / 1000) * real_of_int sampleRate)))"

text \<open>The array \<open>sum\<close> after the first \<open>k\<close> channels have been added (lines 81-87).\<close>

primrec downmix_sum :: "audio_buffer \<Rightarrow> nat \<Rightarrow> error + real list" where
  "downmix_sum audioBuffer 0 = Inr (replicate (buf_length audioBuffer) 0)"
| "downmix_sum audioBuffer (Suc ch) =
     then_do (downmix_sum audioBuffer ch) (\<lambda>sum.
     then_do (copyFromChannel audioBuffer ch) (\<lambda>channelData.
       Inr (map2 (+) sum channelData)))"

text \<open>
  A buffer without channels and with frames would divide 0 by 0: \<open>NaNSample\<close>. (An
  AudioBuffer always has a channel.)
\<close>

definition downmixToMono :: "audio_buffer \<Rightarrow> error + real list" where
  "downmixToMono audioBuffer =
     (if numberOfChannels audioBuffer = 1 then copyFromChannel audioBuffer 0
      else
        then_do (downmix_sum audioBuffer (numberOfChannels audioBuffer)) (\<lambda>sum.
          if numberOfChannels audioBuffer = 0 \<and> buf_length audioBuffer > 0 then Inl NaNSample
          else Inr (map (\<lambda>x. x / real (numberOfChannels audioBuffer)) sum)))"

subsection \<open>processAudioBuffer\<close>

text \<open>The options object: a field that is absent takes its default (\<open>??\<close>).\<close>

record options =
  opt_silenceThreshold :: "real option"
  opt_minSilenceMs :: "real option"
  opt_overlapMs :: "real option"

definition DEFAULT_silenceThreshold :: real where "DEFAULT_silenceThreshold = 0.015"
definition DEFAULT_minSilenceMs :: real where "DEFAULT_minSilenceMs = 200"
definition DEFAULT_overlapMs :: real where "DEFAULT_overlapMs = 60"

text \<open>
  Lines 25-55: the mono buffer that \<open>processAudioBuffer\<close> hands to \<open>audioBufferToWavBlob\<close>,
  \<open>originalBuffer\<close> on the first return path and \<open>outBuffer\<close> on the second.
\<close>

definition process_mono ::
  "(real \<Rightarrow> real) \<Rightarrow> audio_buffer \<Rightarrow> options \<Rightarrow> error + audio_buffer" where
  "process_mono dbl audioBuffer opts =
     (let silenceThreshold =
            (case opt_silenceThreshold opts of None \<Rightarrow> DEFAULT_silenceThreshold | Some v \<Rightarrow> v);
          minSilenceMs = (case opt_minSilenceMs opts of None \<Rightarrow> DEFAULT_minSilenceMs | Some v \<Rightarrow> v);
          overlapMs = (case opt_overlapMs opts of None \<Rightarrow> DEFAULT_overlapMs | Some v \<Rightarrow> v);
          sampleRate = buf_sampleRate audioBuffer;
          minSilenceSamples = msToSamples dbl minSilenceMs sampleRate;
          overlapSamples = msToSamples dbl overlapMs sampleRate
      in then_do (downmixToMono audioBuffer) (\<lambda>monoData.
           (let segs = detectSpeechSegments monoData sampleRate silenceThreshold minSilenceSamples
            in if length segs \<le> 1 \<and> 0 < length segs \<and> fst (segs ! 0) = 0 \<and>
                  snd (segs ! 0) = int (length monoData)
               then Inr (createMonoBuffer monoData sampleRate)
               else
                 then_do (buildOutputBufferFromSegments monoData segs overlapSamples)
                   (\<lambda>stitchedData. Inr (createMonoBuffer stitchedData sampleRate)))))"

definition processAudioBuffer ::
  "(real \<Rightarrow> real) \<Rightarrow> audio_buffer \<Rightarrow> options \<Rightarrow> error + byte list" where
  "processAudioBuffer dbl audioBuffer opts =
     then_do (process_mono dbl audioBuffer opts) audioBufferToWavBlob"
subsection \<open>Predicates used to state and prove the properties\<close>

text \<open>
  \<open>ordered_from lo segs\<close>: every segment of \<open>segs\<close> has positive length, the first one
  starts at \<open>lo\<close> or later, and each next one starts where the one before ends or later.
\<close>

fun ordered_from :: "int \<Rightarrow> segment list \<Rightarrow> bool" where
  "ordered_from lo [] = True"
| "ordered_from lo (seg # rest) = (lo \<le> fst seg \<and> fst seg < snd seg \<and> ordered_from (snd seg) rest)"

definition last_end :: "int \<Rightarrow> segment list \<Rightarrow> int" where
  "last_end lo segs = (if segs = [] then lo else snd (last segs))"

text \<open>The invariant of the scan loop after \<open>k\<close> iterations.\<close>

definition scan_inv :: "nat \<Rightarrow> scan_state \<Rightarrow> bool" where
  "scan_inv k st =
     (0 \<le> silenceRun st \<and> 0 \<le> currentSpeechStart st \<and>
      (currentSpeechStart st = 0 \<or> currentSpeechStart st < int k) \<and>
      ordered_from 0 (segments st) \<and>
      last_end 0 (segments st) \<le> int k \<and>
      (\<not> inSilence st \<longrightarrow> last_end 0 (segments st) \<le> currentSpeechStart st))"

text \<open>
  The merger as section 4.3 of the specification words it: walk the list in order, keeping
  the previously accepted segment; a segment whose gap to it is at most \<open>mergeGapSamples\<close>
  extends its end, any other segment is appended as a new accepted segment.
\<close>

fun absorb :: "int \<Rightarrow> segment \<Rightarrow> segment list \<Rightarrow> segment list" where
  "absorb mergeGapSamples previous [] = [previous]"
| "absorb mergeGapSamples previous (current # rest) =
     (if fst current - snd previous \<le> mergeGapSamples
      then absorb mergeGapSamples (fst previous, snd current) rest
      else previous # absorb mergeGapSamples current rest)"

fun spec_merge :: "int \<Rightarrow> segment list \<Rightarrow> segment list" where
  "spec_merge mergeGapSamples [] = []"
| "spec_merge mergeGapSamples (first # rest) = absorb mergeGapSamples first rest"

text \<open>A segment list whose segments lie inside a buffer of \<open>N\<close> samples.\<close>

definition segs_within :: "int \<Rightarrow> segment list \<Rightarrow> bool" where
  "segs_within N segs = (\<forall>seg \<in> set segs. 0 \<le> fst seg \<and> fst seg \<le> snd seg \<and> snd seg \<le> N)"

text \<open>The length \<open>end - start\<close> of the segment at index \<open>i\<close>.\<close>

definition seg_len :: "segment list \<Rightarrow> nat \<Rightarrow> int" where
  "seg_len segs i = snd (segs ! i) - fst (segs ! i)"

text \<open>
  The length formula of section 4.4 for the first \<open>k\<close> segments: the sum of their lengths,
  minus, for every adjacent pair among them, \<open>min(overlapSamples, len(previous), len(current))\<close>.
\<close>

definition stitched_length :: "segment list \<Rightarrow> int \<Rightarrow> nat \<Rightarrow> int" where
  "stitched_length segs overlapSamples k =
     (\<Sum>i\<leftarrow>[0..<k]. seg_len segs i) -
     (\<Sum>i\<leftarrow>[1..<k]. min overlapSamples (min (seg_len segs (i - 1)) (seg_len segs i)))"

text \<open>Every sample lies in \<open>[-1, 1]\<close>.\<close>

definition bounded :: "real list \<Rightarrow> bool" where
  "bounded xs = (\<forall>x \<in> set xs. - 1 \<le> x \<and> x \<le> 1)"

text \<open>
  Reading bytes back: an unsigned little-endian field, and a signed 16-bit one (what
  DataView.getUint16/getUint32 and getInt16 return with \<open>littleEndian = true\<close>).
\<close>

definition le_uint :: "byte list \<Rightarrow> nat" where
  "le_uint bs = foldr (\<lambda>b acc. unat b + 256 * acc) bs 0"

definition le_sint16 :: "byte list \<Rightarrow> int" where
  "le_sint16 bs = (let u = int (le_uint bs) in if u \<ge> 32768 then u - 65536 else u)"

text \<open>The bytes \<open>writeString\<close> stores for a string: one character code each.\<close>

definition ascii :: "string \<Rightarrow> byte list" where
  "ascii str = map (\<lambda>c. word_of_int (of_char c)) str"

text \<open>
  The integer that \<open>floatTo16BitPCM\<close> hands to the 16-bit store for one sample (the
  expression of lines 272-273 under the conversion of \<open>setInt16\<close>), and its two bytes.
\<close>

definition pcm_value :: "real \<Rightarrow> int" where
  "pcm_value x =
     (let s = max (- 1) (min 1 x)
      in js_truncate (if s < 0 then s * 32768 else s * 32767))"

text \<open>
  The 44 bytes of the header as the table of section 6 lists them, field after field:
  chunk id, chunk size, format, subchunk1 id, subchunk1 size, audio format, channel count,
  sample rate, byte rate, block align, bits per sample, subchunk2 id, subchunk2 size.
\<close>

definition wav_header :: "int \<Rightarrow> nat \<Rightarrow> byte list" where
  "wav_header sampleRate sampleCount =
     (let dataSize = 2 * int sampleCount
      in ascii ''RIFF'' @ u32le (36 + dataSize) @ ascii ''WAVE'' @
         ascii ''fmt '' @ u32le 16 @ u16le 1 @ u16le 1 @ u32le sampleRate @
         u32le (sampleRate * 2) @ u16le 2 @ u16le 16 @
         ascii ''data'' @ u32le dataSize)"

definition pcm_bytes :: "real \<Rightarrow> byte list" where
  "pcm_bytes x = u16le (pcm_value x)"

section \<open>Proofs\<close>

subsection \<open>The segmenter keeps its segments ordered\<close>

lemma last_end_simps [simp]:
  "last_end lo [] = lo" "last_end lo (xs @ [seg]) = snd seg"
  "last_end lo (seg # xs) = last_end (snd seg) xs"
  by (auto simp: last_end_def)

lemma ordered_from_snoc:
  "ordered_from lo (xs @ [seg]) = (ordered_from lo xs \<and> last_end lo xs \<le> fst seg \<and> fst seg < snd seg)"
  by (induction xs arbitrary: lo) auto

lemma ordered_from_snoc2:
  "ordered_from lo (xs @ [p, seg]) =
     (ordered_from lo (xs @ [p]) \<and> snd p \<le> fst seg \<and> fst seg < snd seg)"
  using ordered_from_snoc [of lo "xs @ [p]" seg] by simp

lemma last_end_snoc2 [simp]: "last_end lo (xs @ [p, seg]) = snd seg"
  by (simp add: last_end_def)

lemma ordered_from_last_end: "ordered_from lo segs \<Longrightarrow> lo \<le> last_end lo segs"
  by (induction segs arbitrary: lo) force+

lemma ordered_from_bounds:
  "ordered_from lo segs \<Longrightarrow> seg \<in> set segs \<Longrightarrow>
     lo \<le> fst seg \<and> fst seg < snd seg \<and> snd seg \<le> last_end lo segs"
proof (induction segs arbitrary: lo)
  case Nil
  then show ?case by simp
next
  case (Cons a segs)
  show ?case
  proof (cases "seg = a")
    case True
    with Cons.prems ordered_from_last_end [of "snd a" segs] show ?thesis by simp
  next
    case False
    with Cons.prems have "seg \<in> set segs" "ordered_from (snd a) segs" by auto
    from Cons.IH [OF this(2) this(1)] Cons.prems show ?thesis by simp
  qed
qed

lemma ordered_from_adjacent:
  "ordered_from lo segs \<Longrightarrow> Suc i < length segs \<Longrightarrow>
     snd (segs ! i) \<le> fst (segs ! Suc i) \<and> fst (segs ! i) < fst (segs ! Suc i)"
proof (induction segs arbitrary: lo i)
  case Nil
  then show ?case by simp
next
  case (Cons a segs)
  show ?case
  proof (cases i)
    case 0
    with Cons.prems show ?thesis by (cases segs) auto
  next
    case (Suc j)
    with Cons.prems Cons.IH [of "snd a" j] show ?thesis by simp
  qed
qed

lemma scan_inv_init: "scan_inv 0 scan_init"
  by (simp add: scan_inv_def scan_init_def)

lemma scan_inv_step:
  "scan_inv i st \<Longrightarrow> scan_inv (Suc i) (scan_step d thr m st i)"
  by (auto simp: scan_inv_def scan_step_def Let_def ordered_from_snoc)

lemma scan_inv_upto: "scan_inv k (scan_upto d thr m k)"
  by (induction k) (simp_all add: scan_inv_init scan_inv_step)


lemma raw_segments_nonempty: "raw_segments d thr m \<noteq> []"
  by (simp add: raw_segments_def Let_def)

lemma raw_segments_empty: "raw_segments [] thr m = [(0, 0)]"
  by (simp add: raw_segments_def Let_def scan_init_def)

lemma raw_segments_ordered:
  assumes "d \<noteq> []"
  shows "ordered_from 0 (raw_segments d thr m) \<and> last_end 0 (raw_segments d thr m) \<le> int (length d)"
proof -
  have inv: "scan_inv (length d) (scan_upto d thr m (length d))"
    by (rule scan_inv_upto)
  from assms have "0 < int (length d)" by simp
  with inv show ?thesis
    by (auto simp: raw_segments_def Let_def scan_inv_def ordered_from_snoc)
qed

lemma merge_step_ordered:
  assumes "ordered_from lo acc" and "last_end lo acc \<le> fst seg" and "fst seg < snd seg"
  shows "ordered_from lo (merge_step g acc seg) \<and> last_end lo (merge_step g acc seg) = snd seg
         \<and> merge_step g acc seg \<noteq> []"
proof (cases acc rule: rev_cases)
  case Nil
  with assms show ?thesis by (simp add: merge_step_def)
next
  case (snoc ys p)
  with assms show ?thesis
    by (auto simp: merge_step_def Let_def ordered_from_snoc ordered_from_snoc2)
qed

lemma merge_loop_ordered:
  "ordered_from lo acc \<Longrightarrow> ordered_from (last_end lo acc) segs \<Longrightarrow>
     ordered_from lo (foldl (merge_step g) acc segs) \<and>
     last_end lo (foldl (merge_step g) acc segs) = last_end (last_end lo acc) segs"
proof (induction segs arbitrary: acc)
  case Nil
  then show ?case by simp
next
  case (Cons seg segs)
  from Cons.prems have a: "last_end lo acc \<le> fst seg" "fst seg < snd seg"
    and r: "ordered_from (snd seg) segs" by auto
  from merge_step_ordered [OF Cons.prems(1) a, of g]
  have s: "ordered_from lo (merge_step g acc seg)" "last_end lo (merge_step g acc seg) = snd seg"
    by auto
  from Cons.IH [of "merge_step g acc seg"] s r show ?case by simp
qed

lemma merge_loop_nonempty: "acc \<noteq> [] \<Longrightarrow> foldl (merge_step g) acc segs \<noteq> []"
  by (induction segs arbitrary: acc) (auto simp: merge_step_def Let_def)

lemma merge_step_nonempty: "merge_step g acc seg \<noteq> []"
  by (auto simp: merge_step_def Let_def)

lemma detect_nonempty: "detectSpeechSegments d sr thr m \<noteq> []"
proof -
  obtain seg segs where "raw_segments d thr m = seg # segs"
    using raw_segments_nonempty [of d thr m] by (cases "raw_segments d thr m") auto
  then show ?thesis
    by (simp add: detectSpeechSegments_def Let_def merge_loop_nonempty merge_step_nonempty)
qed

lemma detect_empty: "detectSpeechSegments [] sr thr m = [(0, 0)]"
  by (simp add: detectSpeechSegments_def Let_def raw_segments_empty merge_step_def)

lemma detect_ordered:
  assumes "d \<noteq> []"
  shows "ordered_from 0 (detectSpeechSegments d sr thr m) \<and>
         last_end 0 (detectSpeechSegments d sr thr m) \<le> int (length d)"
  using raw_segments_ordered [OF assms, of thr m]
    merge_loop_ordered [of 0 "[]" "raw_segments d thr m" "\<lfloor>real_of_int sr * 0.03\<rfloor>"]
  by (simp add: detectSpeechSegments_def Let_def)


subsection \<open>The merge loop and the merger of the specification\<close>

lemma merge_loop_absorb:
  "foldl (merge_step g) (acc @ [p]) segs = acc @ absorb g p segs"
proof (induction segs arbitrary: acc p)
  case Nil
  show ?case by simp
next
  case (Cons seg segs)
  show ?case
  proof (cases "fst seg - snd p \<le> g")
    case True
    then have "merge_step g (acc @ [p]) seg = acc @ [(fst p, snd seg)]"
      by (simp add: merge_step_def)
    with True Cons.IH [of acc "(fst p, snd seg)"] show ?thesis by simp
  next
    case False
    then have "merge_step g (acc @ [p]) seg = (acc @ [p]) @ [seg]"
      by (simp add: merge_step_def)
    with False Cons.IH [of "acc @ [p]" seg] show ?thesis by simp
  qed
qed

lemma merge_loop_spec: "foldl (merge_step g) [] segs = spec_merge g segs"
proof (cases segs)
  case Nil
  then show ?thesis by simp
next
  case (Cons seg rest)
  have "merge_step g [] seg = [] @ [seg]" by (simp add: merge_step_def)
  with Cons merge_loop_absorb [of g "[]" seg rest] show ?thesis by simp
qed

lemma length_absorb: "length (absorb g p segs) \<le> Suc (length segs)"
proof (induction segs arbitrary: p)
  case Nil
  show ?case by simp
next
  case (Cons seg segs)
  from Cons.IH [of "(fst p, snd seg)"] Cons.IH [of seg] show ?case by simp
qed

lemma length_spec_merge: "length (spec_merge g segs) \<le> length segs"
  by (cases segs) (simp_all add: length_absorb)


subsection \<open>The stitcher: lengths, cursor and amplitude\<close>

lemma subarray_within:
  assumes "0 \<le> s" "s \<le> e" "e \<le> int (length a)"
  shows "subarray a s e = take (nat (e - s)) (drop (nat s) a)"
    and "int (length (subarray a s e)) = e - s"
  using assms by (auto simp: subarray_def Let_def min_def max_def)

lemma subarray_tail:
  assumes "0 \<le> k" "k \<le> int (length v)"
  shows "int (length (subarray v k (int (length v)))) = int (length v) - k"
  using assms by (auto simp: subarray_def Let_def min_def max_def)

lemma set_subarray: "set (subarray a s e) \<subseteq> set a"
  by (auto simp: subarray_def Let_def dest!: in_set_takeD in_set_dropD)

lemma bounded_subarray: "bounded a \<Longrightarrow> bounded (subarray a s e)"
  using set_subarray [of a s e] by (auto simp: bounded_def)

lemma typed_set_ok:
  assumes "0 \<le> off" "off + int (length v) \<le> int (length out)"
  shows "\<exists>out'. typed_set out v off = Inr out' \<and> length out' = length out"
  using assms by (auto simp: typed_set_def)

lemma typed_set_bounded:
  assumes "typed_set out v off = Inr out'" "bounded out" "bounded v"
  shows "bounded out'"
  using assms
  by (auto simp: typed_set_def bounded_def split: if_splits dest!: in_set_takeD in_set_dropD)

lemma seg_len_within:
  "segs_within N segs \<Longrightarrow> i < length segs \<Longrightarrow> 0 \<le> seg_len segs i"
  by (auto simp: segs_within_def seg_len_def)

lemma total_upto_Suc:
  "total_upto segs ov (Suc k) =
     total_upto segs ov k + seg_len segs k -
       (if k > 0 then min ov (min (seg_len segs (k - 1)) (seg_len segs k)) else 0)"
  by (simp add: seg_len_def Let_def split: prod.splits)

lemma total_upto_formula: "total_upto segs ov k = stitched_length segs ov k"
proof (induction k)
  case 0
  show ?case by (simp add: stitched_length_def)
next
  case (Suc k)
  show ?case
  proof (cases k)
    case 0
    then show ?thesis by (simp add: stitched_length_def seg_len_def split: prod.splits)
  next
    case (Suc j)
    have "[1..<Suc k] = [1..<k] @ [k]" using Suc by simp
    with Suc.IH Suc show ?thesis
      unfolding total_upto_Suc by (simp add: stitched_length_def)
  qed
qed

lemma total_upto_ge_len:
  assumes "segs_within N segs" "k < length segs"
  shows "seg_len segs k \<le> total_upto segs ov (Suc k)"
  using assms(2)
proof (induction k)
  case 0
  show ?case by (simp add: seg_len_def split: prod.splits)
next
  case (Suc k)
  then have "seg_len segs k \<le> total_upto segs ov (Suc k)" by simp
  then show ?case
    unfolding total_upto_Suc [of segs ov "Suc k"] by simp
qed

lemma total_upto_step_mono:
  assumes "segs_within N segs" "k < length segs"
  shows "total_upto segs ov k \<le> total_upto segs ov (Suc k)"
proof (cases k)
  case 0
  with seg_len_within [OF assms] show ?thesis unfolding total_upto_Suc by simp
next
  case (Suc j)
  then show ?thesis unfolding total_upto_Suc by simp
qed

lemma total_upto_mono:
  assumes "segs_within N segs" "k \<le> length segs" "j \<le> k"
  shows "total_upto segs ov j \<le> total_upto segs ov k"
  using assms(3,2)
proof (induction k rule: dec_induct)
  case base
  show ?case by simp
next
  case (step n)
  from step have "total_upto segs ov n \<le> total_upto segs ov (Suc n)"
    using total_upto_step_mono [OF assms(1), of n ov] by simp
  with step show ?case by simp
qed


lemma crossfade_ok:
  assumes "0 \<le> wp" "wp + int k \<le> int (length out)" "k \<le> length segView"
  shows "\<exists>out'. crossfade_upto out segView wp ov k = Inr out' \<and> length out' = length out"
  using assms(2,3)
proof (induction k)
  case 0
  show ?case by simp
next
  case (Suc k)
  then obtain o1 where o1: "crossfade_upto out segView wp ov k = Inr o1" "length o1 = length out"
    by auto
  with Suc.prems assms(1) show ?case by (simp add: Let_def)
qed

lemma convex_bounded:
  fixes a b f :: real
  assumes "- 1 \<le> a" "a \<le> 1" "- 1 \<le> b" "b \<le> 1" "0 \<le> f" "f \<le> 1"
  shows "- 1 \<le> a * (1 - f) + b * f \<and> a * (1 - f) + b * f \<le> 1"
proof -
  have g: "0 \<le> 1 - f" using assms by simp
  have "a * (1 - f) \<le> 1 * (1 - f)"
    using assms(2) g by (rule mult_right_mono)
  moreover have "b * f \<le> 1 * f"
    using assms(4,5) by (rule mult_right_mono)
  moreover have "- 1 * (1 - f) \<le> a * (1 - f)"
    using assms(1) g by (rule mult_right_mono)
  moreover have "- 1 * f \<le> b * f"
    using assms(3,5) by (rule mult_right_mono)
  ultimately show ?thesis by simp
qed

lemma fade_in_range:
  assumes "i < nat ov"
  shows "0 \<le> real i / real_of_int ov \<and> real i / real_of_int ov \<le> 1"
proof -
  from assms have "0 < ov" "int i \<le> ov" by auto
  then have "real i \<le> real_of_int ov" "0 < real_of_int ov" by linarith+
  then show ?thesis by simp
qed

lemma crossfade_bounded:
  assumes "crossfade_upto out segView wp ov k = Inr out'" "k \<le> nat ov"
    and "bounded out" "bounded segView"
  shows "bounded out'"
  using assms(1,2)
proof (induction k arbitrary: out')
  case 0
  with assms(3) show ?case by simp
next
  case (Suc k)
  from Suc.prems(1) obtain o1 where o1: "crossfade_upto out segView wp ov k = Inr o1"
    by (auto split: sum.splits)
  with Suc have b1: "bounded o1" by simp
  from Suc.prems(2) have ov: "ov \<noteq> 0" "k < nat ov" by auto
  show ?case
  proof (cases "wp + int k < 0 \<or> wp + int k \<ge> int (length o1)")
    case True
    with Suc.prems(1) o1 b1 show ?thesis by auto
  next
    case False
    with Suc.prems(1) o1 have k: "k < length segView"
      by (auto split: if_splits)
    let ?p = "nat (wp + int k)"
    let ?f = "real k / real_of_int ov"
    from False have p: "?p < length o1" by auto
    from False Suc.prems(1) o1 k ov
    have eq: "out' = o1[?p := o1 ! ?p * (1 - ?f) + segView ! k * ?f]"
      by (auto simp: Let_def)
    from b1 p have a: "- 1 \<le> o1 ! ?p \<and> o1 ! ?p \<le> 1" by (auto simp: bounded_def)
    from assms(4) k have b: "- 1 \<le> segView ! k \<and> segView ! k \<le> 1" by (auto simp: bounded_def)
    from convex_bounded [of "o1 ! ?p" "segView ! k" ?f] a b fade_in_range [OF ov(2)]
    have "- 1 \<le> o1 ! ?p * (1 - ?f) + segView ! k * ?f \<and> o1 ! ?p * (1 - ?f) + segView ! k * ?f \<le> 1"
      by simp
    with b1 show ?thesis
      unfolding eq bounded_def using set_update_subset_insert [of o1 ?p] by blast
  qed
qed

lemma stitch_upto_bounded:
  assumes "stitch_upto source segs ov out0 k = Inr (out, wp)"
    and "bounded source" "bounded out0"
  shows "bounded out"
  using assms(1)
proof (induction k arbitrary: out wp)
  case 0
  with assms(3) show ?case by simp
next
  case (Suc k)
  from Suc.prems obtain o1 w1 where o1: "stitch_upto source segs ov out0 k = Inr (o1, w1)"
    by (auto split: sum.splits)
  with Suc.IH have b1: "bounded o1" by simp
  obtain s e where se: "segs ! k = (s, e)" by (cases "segs ! k")
  have bv: "bounded (subarray source s e)" by (rule bounded_subarray [OF assms(2)])
  show ?case
  proof (cases "k = 0")
    case True
    with Suc.prems o1 se have "typed_set o1 (subarray source s e) w1 = Inr out"
      by (auto simp: Let_def split: sum.splits)
    from typed_set_bounded [OF this b1 bv] show ?thesis .
  next
    case False
    obtain ps pe where pse: "segs ! (k - 1) = (ps, pe)" by (cases "segs ! (k - 1)")
    define ovk where "ovk = min ov (min (pe - ps) (e - s))"
    from False Suc.prems o1 se pse obtain o2 where
      c: "crossfade_upto o1 (subarray source s e) (w1 - ovk) ovk (nat ovk) = Inr o2" and
      t: "typed_set o2 (subarray (subarray source s e) ovk (int (length (subarray source s e))))
            (w1 - ovk + ovk) = Inr out"
      by (auto simp: Let_def ovk_def split: sum.splits)
    from crossfade_bounded [OF c _ b1 bv] have "bounded o2" by simp
    from typed_set_bounded [OF t this bounded_subarray [OF bv]] show ?thesis .
  qed
qed

lemma stitch_upto_ok:
  assumes v: "segs_within (int (length source)) segs" and ov: "0 \<le> ov"
    and l0: "int (length out0) = total_upto segs ov (length segs)"
    and k: "k \<le> length segs"
  shows "\<exists>out. stitch_upto source segs ov out0 k = Inr (out, total_upto segs ov k) \<and>
               length out = length out0"
  using k
proof (induction k)
  case 0
  show ?case by simp
next
  case (Suc k)
  then obtain o1 where o1: "stitch_upto source segs ov out0 k = Inr (o1, total_upto segs ov k)"
    and lo1: "length o1 = length out0" by auto
  from Suc.prems have kl: "k < length segs" by simp
  obtain s e where se: "segs ! k = (s, e)" by (cases "segs ! k")
  from v kl se have vs: "0 \<le> s" "s \<le> e" "e \<le> int (length source)"
    using nth_mem [OF kl] by (auto simp: segs_within_def)
  let ?view = "subarray source s e"
  have lv: "int (length ?view) = e - s" by (rule subarray_within(2) [OF vs])
  have sl: "seg_len segs k = e - s" by (simp add: seg_len_def se)
  have top: "total_upto segs ov (Suc k) \<le> int (length out0)"
    unfolding l0 using total_upto_mono [OF v _ Suc.prems, of ov] by simp
  show ?case
  proof (cases "k = 0")
    case True
    have t1: "total_upto segs ov (Suc 0) = e - s" using se True by simp
    from top True t1 lv lo1 have "0 + int (length ?view) \<le> int (length o1)" by simp
    from typed_set_ok [OF _ this] obtain o2 where
      "typed_set o1 ?view 0 = Inr o2" "length o2 = length o1" by auto
    with o1 True se t1 lo1 show ?thesis by (simp add: Let_def)
  next
    case False
    obtain ps pe where pse: "segs ! (k - 1) = (ps, pe)" by (cases "segs ! (k - 1)")
    define ovk where "ovk = min ov (min (pe - ps) (e - s))"
    let ?T = "total_upto segs ov k"
    from False kl have k1: "k - 1 < length segs" "Suc (k - 1) = k" by auto
    have pl: "seg_len segs (k - 1) = pe - ps" using pse by (simp add: seg_len_def)
    from seg_len_within [OF v k1(1)] pl have "0 \<le> pe - ps" by simp
    with ov vs have ovk0: "0 \<le> ovk" by (simp add: ovk_def)
    from total_upto_ge_len [OF v k1(1), of ov] k1(2) pl have "pe - ps \<le> ?T" by simp
    then have ovT: "ovk \<le> ?T" by (simp add: ovk_def)
    have TS: "total_upto segs ov (Suc k) = ?T + (e - s) - ovk"
      unfolding total_upto_Suc using False sl pl by (simp add: ovk_def)
    have ovlen: "ovk \<le> e - s" by (simp add: ovk_def)
    from top TS ovlen have Tn: "?T \<le> int (length o1)" using lo1 by simp
    have "\<exists>o2. crossfade_upto o1 ?view (?T - ovk) ovk (nat ovk) = Inr o2 \<and> length o2 = length o1"
    proof (rule crossfade_ok)
      show "0 \<le> ?T - ovk" using ovT by simp
      show "?T - ovk + int (nat ovk) \<le> int (length o1)" using ovk0 Tn by simp
      show "nat ovk \<le> length ?view" using lv ovlen ovk0 by linarith
    qed
    then obtain o2 where c: "crossfade_upto o1 ?view (?T - ovk) ovk (nat ovk) = Inr o2"
      and lo2: "length o2 = length o1" by auto
    let ?rest = "subarray ?view ovk (int (length ?view))"
    have lr: "int (length ?rest) = (e - s) - ovk"
      using subarray_tail [of ovk ?view] ovk0 ovlen lv by simp
    have "\<exists>o3. typed_set o2 ?rest (?T - ovk + ovk) = Inr o3 \<and> length o3 = length o2"
    proof (rule typed_set_ok)
      show "0 \<le> ?T - ovk + ovk" using ovT ovk0 by simp
      show "?T - ovk + ovk + int (length ?rest) \<le> int (length o2)"
        using lr top TS lo2 lo1 by simp
    qed
    then obtain o3 where t: "typed_set o2 ?rest (?T - ovk + ovk) = Inr o3"
      and lo3: "length o3 = length o2" by auto
    have "stitch_upto source segs ov out0 (Suc k) = Inr (o3, ?T - ovk + (e - s))"
      using o1 False se pse c t by (simp add: Let_def ovk_def)
    with TS lo3 lo2 lo1 show ?thesis by simp
  qed
qed


subsection \<open>The encoder: fields and layout\<close>

lemma unat_drop_bit_div:
  fixes w :: "'a::len word"
  shows "unat (drop_bit n w) = unat w div 2 ^ n"
proof -
  have "unat (drop_bit n w) = drop_bit n (unat w)" by (rule unat_drop_bit_eq)
  also have "\<dots> = unat w div 2 ^ n" by (rule drop_bit_eq_div)
  finally show ?thesis .
qed

lemma unat_div_256:
  fixes w :: "'a::len word"
  shows "unat (drop_bit 8 w) = unat w div 256"
  using unat_drop_bit_div [of 8 w] by simp

lemma unat_split_byte:
  fixes w :: "'a::len word"
  shows "unat w = unat (ucast w :: byte) + 256 * unat (drop_bit 8 w)"
proof -
  have "unat (ucast w :: byte) = unat w mod 256"
    unfolding unsigned_ucast_eq take_bit_eq_mod by simp
  moreover have "unat (drop_bit 8 w) = unat w div 256"
    by (simp only: unat_div_256)
  ultimately show ?thesis by simp
qed

lemma le_uint_u16le: "le_uint (u16le v) = nat (v mod 65536)"
proof -
  define w where "w = (word_of_int v :: 16 word)"
  have z: "unat (drop_bit 16 w) = 0"
    using unsigned_less [of w, where 'a = nat] unat_drop_bit_div [of 16 w] by simp
  have "unat w = unat (ucast w :: byte) + 256 * unat (drop_bit 8 w)"
    by (rule unat_split_byte)
  also have "unat (drop_bit 8 w) = unat (ucast (drop_bit 8 w) :: byte) + 256 * unat (drop_bit 8 (drop_bit 8 w))"
    by (rule unat_split_byte)
  finally have "unat w = le_uint (u16le v)"
    using z by (simp add: le_uint_def u16le_def w_def Let_def)
  moreover have "unat w = nat (v mod 65536)"
    by (simp add: w_def unsigned_of_int take_bit_eq_mod)
  ultimately show ?thesis by simp
qed

lemma le_uint_u32le: "le_uint (u32le v) = nat (v mod 4294967296)"
proof -
  define w where "w = (word_of_int v :: 32 word)"
  have z: "unat (drop_bit 32 w) = 0"
    using unsigned_less [of w, where 'a = nat] unat_drop_bit_div [of 32 w] by simp
  have "unat w = unat (ucast w :: byte) + 256 * unat (drop_bit 8 w)"
    by (rule unat_split_byte)
  also have "unat (drop_bit 8 w) = unat (ucast (drop_bit 8 w) :: byte) + 256 * unat (drop_bit 8 (drop_bit 8 w))"
    by (rule unat_split_byte)
  also have "unat (drop_bit 8 (drop_bit 8 w)) =
      unat (ucast (drop_bit 8 (drop_bit 8 w)) :: byte) + 256 * unat (drop_bit 8 (drop_bit 8 (drop_bit 8 w)))"
    by (rule unat_split_byte)
  also have "unat (drop_bit 8 (drop_bit 8 (drop_bit 8 w))) =
      unat (ucast (drop_bit 8 (drop_bit 8 (drop_bit 8 w))) :: byte) +
      256 * unat (drop_bit 8 (drop_bit 8 (drop_bit 8 (drop_bit 8 w))))"
    by (rule unat_split_byte)
  finally have "unat w = le_uint (u32le v)"
    using z by (simp add: le_uint_def u32le_def w_def Let_def)
  moreover have "unat w = nat (v mod 4294967296)"
    by (simp add: w_def unsigned_of_int take_bit_eq_mod)
  ultimately show ?thesis by simp
qed

lemma le_sint16_u16le:
  assumes "- 32768 \<le> v" "v \<le> 32767"
  shows "le_sint16 (u16le v) = v"
proof (cases "v < 0")
  case True
  from assms True have "(v + 65536) mod 65536 = v + 65536"
    by (intro mod_pos_pos_trivial) simp_all
  moreover have "(v + 65536) mod 65536 = v mod 65536" by (rule mod_add_self2)
  ultimately have "v mod 65536 = v + 65536" by (simp only:)
  with assms True show ?thesis by (simp add: le_sint16_def le_uint_u16le)
next
  case False
  with assms have "v mod 65536 = v" by simp
  with assms False show ?thesis by (simp add: le_sint16_def le_uint_u16le)
qed

lemma pcm_value_range: "- 32768 \<le> pcm_value x \<and> pcm_value x \<le> 32767"
proof -
  define s where "s = max (- 1) (min 1 x)"
  have s: "- 1 \<le> s" "s \<le> 1" by (auto simp: s_def)
  show ?thesis
  proof (cases "s < 0")
    case True
    from s have "- 32768 \<le> s * 32768" by simp
    then have "- 32768 \<le> \<lceil>s * 32768\<rceil>" by (simp add: le_ceiling_iff)
    moreover from True have "\<lceil>s * 32768\<rceil> \<le> 0" by (simp add: ceiling_le_iff)
    ultimately show ?thesis using True by (simp add: pcm_value_def js_truncate_def s_def [symmetric] Let_def)
  next
    case False
    from s have "s * 32767 \<le> 32767" by simp
    then have "\<lfloor>s * 32767\<rfloor> \<le> 32767" by (simp add: floor_le_iff)
    moreover from False have "0 \<le> \<lfloor>s * 32767\<rfloor>" by simp
    ultimately show ?thesis using False by (simp add: pcm_value_def js_truncate_def s_def [symmetric] Let_def)
  qed
qed


lemma length_u16le [simp]: "length (u16le v) = 2"
  by (simp add: u16le_def Let_def)

lemma length_u32le [simp]: "length (u32le v) = 4"
  by (simp add: u32le_def Let_def)

lemma length_ascii [simp]: "length (ascii str) = length str"
  by (simp add: ascii_def)

lemma length_pcm_bytes [simp]: "length (pcm_bytes x) = 2"
  by (simp add: pcm_bytes_def)

lemma then_do_Inr [simp]: "then_do (Inr x) f = f x"
  by (simp add: then_do_def)

lemma set_bytes_append:
  assumes "length pre = off" "length bs \<le> length rest"
  shows "set_bytes (pre @ rest) off bs = Inr (pre @ bs @ drop (length bs) rest)"
  using assms by (simp add: set_bytes_def)

lemma writeString_append:
  "length pre = off \<Longrightarrow> length str \<le> length rest \<Longrightarrow>
     writeString (pre @ rest) off str = Inr (pre @ ascii str @ drop (length str) rest)"
proof (induction str arbitrary: pre rest off)
  case Nil
  then show ?case by (simp add: ascii_def)
next
  case (Cons c str)
  let ?b = "word_of_int (of_char c) :: byte"
  from Cons.prems have "setUint8 (pre @ rest) off (of_char c) = Inr (pre @ [?b] @ drop 1 rest)"
    using set_bytes_append [of pre off "[?b]" rest] by (simp add: setUint8_def)
  moreover from Cons.prems
  have "writeString ((pre @ [?b]) @ drop 1 rest) (off + 1) str =
          Inr ((pre @ [?b]) @ ascii str @ drop (length str) (drop 1 rest))"
    by (intro Cons.IH) simp_all
  ultimately show ?case by (simp add: ascii_def)
qed

lemma floatTo16BitPCM_append:
  "length pre = off \<Longrightarrow> 2 * length input \<le> length rest \<Longrightarrow>
     floatTo16BitPCM (pre @ rest) off input =
       Inr (pre @ concat (map pcm_bytes input) @ drop (2 * length input) rest)"
proof (induction input arbitrary: pre rest off)
  case Nil
  then show ?case by simp
next
  case (Cons x input)
  define s where "s = max (- 1) (min 1 x)"
  have pb: "u16le (js_truncate (if s < 0 then s * 32768 else s * 32767)) = pcm_bytes x"
    by (simp only: pcm_bytes_def pcm_value_def s_def Let_def)
  from Cons.prems
  have A: "setInt16 (pre @ rest) off (if s < 0 then s * 32768 else s * 32767) =
          Inr ((pre @ pcm_bytes x) @ drop 2 rest)"
    using set_bytes_append [of pre off "pcm_bytes x" rest] by (simp add: setInt16_def pb)
  from Cons.prems
  have B: "floatTo16BitPCM ((pre @ pcm_bytes x) @ drop 2 rest) (off + 2) input =
          Inr ((pre @ pcm_bytes x) @ concat (map pcm_bytes input) @
               drop (2 * length input) (drop 2 rest))"
    by (intro Cons.IH) simp_all
  have "floatTo16BitPCM (pre @ rest) off (x # input) =
          (case setInt16 (pre @ rest) off (if s < 0 then s * 32768 else s * 32767) of
             Inl err \<Rightarrow> Inl err
           | Inr view' \<Rightarrow> floatTo16BitPCM view' (off + 2) input)"
    by (simp only: floatTo16BitPCM.simps Let_def s_def)
  also have "\<dots> = Inr ((pre @ pcm_bytes x) @ concat (map pcm_bytes input) @
               drop (2 * length input) (drop 2 rest))"
    by (simp only: A B sum.case)
  finally show ?case by (simp add: add.commute)
qed

lemma chunk_at:
  assumes "\<And>x. length (f x) = 2"
  shows "i < length xs \<Longrightarrow> take 2 (drop (2 * i) (concat (map f xs) @ ys)) = f (xs ! i)"
proof (induction xs arbitrary: i)
  case Nil
  then show ?case by simp
next
  case (Cons x xs)
  show ?case
  proof (cases i)
    case 0
    then show ?thesis by (simp add: assms)
  next
    case (Suc j)
    with Cons.prems have "j < length xs" by simp
    from Cons.IH [OF this] Suc show ?thesis by (simp add: assms)
  qed
qed

lemma drop_prefix: "length pre = k \<Longrightarrow> drop (k + j) (pre @ xs) = drop j xs"
  by simp

lemma floatTo16BitPCM_reads:
  assumes "offset + 2 * length input \<le> length view"
  shows "\<exists>view'. floatTo16BitPCM view offset input = Inr view' \<and> length view' = length view \<and>
           (\<forall>i<length input. take 2 (drop (offset + 2 * i) view') = pcm_bytes (input ! i))"
proof -
  define pre where "pre = take offset view"
  define rest where "rest = drop offset view"
  define tl where "tl = drop (2 * length input) rest"
  define out where "out = pre @ concat (map pcm_bytes input) @ tl"
  from assms have lp: "length pre = offset" and lr: "2 * length input \<le> length rest"
    by (auto simp: pre_def rest_def)
  have "view = pre @ rest" by (simp add: pre_def rest_def)
  with floatTo16BitPCM_append [OF lp lr]
  have r: "floatTo16BitPCM view offset input = Inr out" by (simp add: out_def tl_def)
  have lc: "length (concat (map pcm_bytes input)) = 2 * length input"
    by (induction input) simp_all
  from assms lc lp have len: "length out = length view"
    by (simp add: out_def tl_def rest_def)
  have rd: "take 2 (drop (offset + 2 * i) out) = pcm_bytes (input ! i)" if "i < length input" for i
  proof -
    have "drop (offset + 2 * i) out = drop (2 * i) (concat (map pcm_bytes input) @ tl)"
      unfolding out_def by (rule drop_prefix [OF lp])
    with chunk_at [of pcm_bytes i input tl, OF length_pcm_bytes that] show ?thesis
      by (simp only:)
  qed
  from r len rd show ?thesis by blast
qed

lemma pcm_value_explicit:
  "pcm_value x =
     (let s = max (- 1) (min 1 x) in if s < 0 then \<lceil>s * 32768\<rceil> else \<lfloor>s * 32767\<rfloor>)"
proof -
  define s where "s = max (- 1) (min 1 x)"
  have "s < 0 \<Longrightarrow> s * 32768 < 0" "\<not> s < 0 \<Longrightarrow> \<not> s * 32767 < 0" by simp_all
  then have "js_truncate (if s < 0 then s * 32768 else s * 32767) =
               (if s < 0 then \<lceil>s * 32768\<rceil> else \<lfloor>s * 32767\<rfloor>)"
    by (simp add: js_truncate_def)
  then show ?thesis
    by (simp only: pcm_value_def Let_def s_def)
qed


lemma encoder_unfold:
  "audioBufferToWavBlob (createMonoBuffer data sr) =
     then_do (writeString (replicate (44 + 2 * length data) 0) 0 ''RIFF'') (\<lambda>view.
     then_do (setUint32 view 4 (36 + 2 * int (length data))) (\<lambda>view.
     then_do (writeString view 8 ''WAVE'') (\<lambda>view.
     then_do (writeString view 12 ''fmt '') (\<lambda>view.
     then_do (setUint32 view 16 16) (\<lambda>view.
     then_do (setUint16 view 20 1) (\<lambda>view.
     then_do (setUint16 view 22 1) (\<lambda>view.
     then_do (setUint32 view 24 sr) (\<lambda>view.
     then_do (setUint32 view 28 (sr * 2)) (\<lambda>view.
     then_do (setUint16 view 32 2) (\<lambda>view.
     then_do (setUint16 view 34 16) (\<lambda>view.
     then_do (writeString view 36 ''data'') (\<lambda>view.
     then_do (setUint32 view 40 (2 * int (length data))) (\<lambda>view.
     floatTo16BitPCM view 44 data)))))))))))))"
proof -
  have n: "nat (44 + int (length data) * 2) = 44 + 2 * length data" by simp
  have g: "getChannelData (createMonoBuffer data sr) 0 = Inr data"
    by (simp add: getChannelData_def createMonoBuffer_def numberOfChannels_def)
  show ?thesis
    unfolding audioBufferToWavBlob_def Let_def g then_do_Inr
    by (simp add: n createMonoBuffer_def mult.commute)
qed

lemma fill_bytes:
  assumes "length pre = off" "length bs \<le> m"
  shows "set_bytes (pre @ replicate m 0) off bs = Inr ((pre @ bs) @ replicate (m - length bs) 0)"
  using set_bytes_append [of pre off bs "replicate m 0"] assms by simp

lemma fill_string:
  assumes "length pre = off" "length str \<le> m"
  shows "writeString (pre @ replicate m 0) off str =
           Inr ((pre @ ascii str) @ replicate (m - length str) 0)"
  using writeString_append [of pre off str "replicate m 0"] assms by simp

lemma fill_u32:
  assumes "length pre = off" "4 \<le> m"
  shows "setUint32 (pre @ replicate m 0) off v = Inr ((pre @ u32le v) @ replicate (m - 4) 0)"
  using fill_bytes [of pre off "u32le v" m] assms by (simp add: setUint32_def)

lemma fill_u16:
  assumes "length pre = off" "2 \<le> m"
  shows "setUint16 (pre @ replicate m 0) off v = Inr ((pre @ u16le v) @ replicate (m - 2) 0)"
  using fill_bytes [of pre off "u16le v" m] assms by (simp add: setUint16_def)

lemma encoder_layout:
  "audioBufferToWavBlob (createMonoBuffer data sr) =
     Inr (wav_header sr (length data) @ concat (map pcm_bytes data))"
proof -
  define n where "n = length data"
  define d where "d = 2 * int n"
  define p1 where "p1 = [] @ ascii ''RIFF''"
  define p2 where "p2 = p1 @ u32le (36 + d)"
  define p3 where "p3 = p2 @ ascii ''WAVE''"
  define p4 where "p4 = p3 @ ascii ''fmt ''"
  define p5 where "p5 = p4 @ u32le 16"
  define p6 where "p6 = p5 @ u16le 1"
  define p7 where "p7 = p6 @ u16le 1"
  define p8 where "p8 = p7 @ u32le sr"
  define p9 where "p9 = p8 @ u32le (sr * 2)"
  define p10 where "p10 = p9 @ u16le 2"
  define p11 where "p11 = p10 @ u16le 16"
  define p12 where "p12 = p11 @ ascii ''data''"
  define p13 where "p13 = p12 @ u32le d"
  let ?Z = "\<lambda>k. replicate k (0 :: byte)"
  have l1: "length p1 = 4" by (simp add: p1_def)
  have l2: "length p2 = 8" by (simp add: p2_def l1)
  have l3: "length p3 = 12" by (simp add: p3_def l2)
  have l4: "length p4 = 16" by (simp add: p4_def l3)
  have l5: "length p5 = 20" by (simp add: p5_def l4)
  have l6: "length p6 = 22" by (simp add: p6_def l5)
  have l7: "length p7 = 24" by (simp add: p7_def l6)
  have l8: "length p8 = 28" by (simp add: p8_def l7)
  have l9: "length p9 = 32" by (simp add: p9_def l8)
  have l10: "length p10 = 34" by (simp add: p10_def l9)
  have l11: "length p11 = 36" by (simp add: p11_def l10)
  have l12: "length p12 = 40" by (simp add: p12_def l11)
  have l13: "length p13 = 44" by (simp add: p13_def l12)
  have s1: "writeString (?Z (44 + 2 * n)) 0 ''RIFF'' = Inr (p1 @ ?Z (40 + 2 * n))"
    using fill_string [of "[]" 0 "''RIFF''" "44 + 2 * n"] by (simp add: p1_def)
  have s2: "setUint32 (p1 @ ?Z (40 + 2 * n)) 4 (36 + d) = Inr (p2 @ ?Z (36 + 2 * n))"
    using fill_u32 [of p1 4 "40 + 2 * n" "36 + d"] l1 by (simp add: p2_def)
  have s3: "writeString (p2 @ ?Z (36 + 2 * n)) 8 ''WAVE'' = Inr (p3 @ ?Z (32 + 2 * n))"
    using fill_string [of p2 8 "''WAVE''" "36 + 2 * n"] l2 by (simp add: p3_def)
  have s4: "writeString (p3 @ ?Z (32 + 2 * n)) 12 ''fmt '' = Inr (p4 @ ?Z (28 + 2 * n))"
    using fill_string [of p3 12 "''fmt ''" "32 + 2 * n"] l3 by (simp add: p4_def)
  have s5: "setUint32 (p4 @ ?Z (28 + 2 * n)) 16 16 = Inr (p5 @ ?Z (24 + 2 * n))"
    using fill_u32 [of p4 16 "28 + 2 * n" 16] l4 by (simp add: p5_def)
  have s6: "setUint16 (p5 @ ?Z (24 + 2 * n)) 20 1 = Inr (p6 @ ?Z (22 + 2 * n))"
    using fill_u16 [of p5 20 "24 + 2 * n" 1] l5 by (simp add: p6_def)
  have s7: "setUint16 (p6 @ ?Z (22 + 2 * n)) 22 1 = Inr (p7 @ ?Z (20 + 2 * n))"
    using fill_u16 [of p6 22 "22 + 2 * n" 1] l6 by (simp add: p7_def)
  have s8: "setUint32 (p7 @ ?Z (20 + 2 * n)) 24 sr = Inr (p8 @ ?Z (16 + 2 * n))"
    using fill_u32 [of p7 24 "20 + 2 * n" sr] l7 by (simp add: p8_def)
  have s9: "setUint32 (p8 @ ?Z (16 + 2 * n)) 28 (sr * 2) = Inr (p9 @ ?Z (12 + 2 * n))"
    using fill_u32 [of p8 28 "16 + 2 * n" "sr * 2"] l8 by (simp add: p9_def)
  have s10: "setUint16 (p9 @ ?Z (12 + 2 * n)) 32 2 = Inr (p10 @ ?Z (10 + 2 * n))"
    using fill_u16 [of p9 32 "12 + 2 * n" 2] l9 by (simp add: p10_def)
  have s11: "setUint16 (p10 @ ?Z (10 + 2 * n)) 34 16 = Inr (p11 @ ?Z (8 + 2 * n))"
    using fill_u16 [of p10 34 "10 + 2 * n" 16] l10 by (simp add: p11_def)
  have s12: "writeString (p11 @ ?Z (8 + 2 * n)) 36 ''data'' = Inr (p12 @ ?Z (4 + 2 * n))"
    using fill_string [of p11 36 "''data''" "8 + 2 * n"] l11 by (simp add: p12_def)
  have s13: "setUint32 (p12 @ ?Z (4 + 2 * n)) 40 d = Inr (p13 @ ?Z (2 * n))"
    using fill_u32 [of p12 40 "4 + 2 * n" d] l12 by (simp add: p13_def)
  have s14: "floatTo16BitPCM (p13 @ ?Z (2 * n)) 44 data = Inr (p13 @ concat (map pcm_bytes data))"
    using floatTo16BitPCM_append [of p13 44 data "?Z (2 * n)"] l13 by (simp add: n_def)
  have "audioBufferToWavBlob (createMonoBuffer data sr) = Inr (p13 @ concat (map pcm_bytes data))"
    unfolding encoder_unfold n_def [symmetric] d_def [symmetric]
    by (simp only: s1 s2 s3 s4 s5 s6 s7 s8 s9 s10 s11 s12 s13 s14 then_do_Inr)
  moreover have "p13 = wav_header sr (length data)"
    by (simp add: wav_header_def Let_def p13_def p12_def p11_def p10_def p9_def p8_def p7_def
        p6_def p5_def p4_def p3_def p2_def p1_def d_def n_def)
  ultimately show ?thesis by simp
qed

lemma length_wav_header: "length (wav_header sr n) = 44"
  by (simp add: wav_header_def Let_def)

lemma length_pcm_data: "length (concat (map pcm_bytes data)) = 2 * length data"
  by (induction data) simp_all


subsection \<open>The pipeline\<close>

lemma msToSamples_nonneg: "0 \<le> msToSamples dbl ms sr"
  by (simp add: msToSamples_def)

lemma msToSamples_negative:
  assumes "ms < 0" "0 < sr" and dbl: "\<forall>x. x \<le> 0 \<longrightarrow> dbl x \<le> 0"
  shows "msToSamples dbl ms sr = 0"
proof -
  from assms(1) have "ms / 1000 \<le> 0" by simp
  with dbl have "dbl (ms / 1000) \<le> 0" by blast
  moreover from assms(2) have "0 \<le> real_of_int sr" by simp
  ultimately have "dbl (ms / 1000) * real_of_int sr \<le> 0"
    by (rule mult_nonpos_nonneg)
  with dbl have "dbl (dbl (ms / 1000) * real_of_int sr) \<le> 0" by blast
  then have "round (dbl (dbl (ms / 1000) * real_of_int sr)) \<le> 0"
    by (simp add: round_def floor_le_iff)
  then show ?thesis by (simp add: msToSamples_def)
qed

lemma copyFromChannel_ok:
  assumes "ch < numberOfChannels b"
  shows "\<exists>d. copyFromChannel b ch = Inr d \<and> length d = buf_length b"
  using assms by (auto simp: copyFromChannel_def Let_def)

lemma downmix_sum_ok:
  "k \<le> numberOfChannels b \<Longrightarrow> \<exists>s. downmix_sum b k = Inr s \<and> length s = buf_length b"
proof (induction k)
  case 0
  show ?case by simp
next
  case (Suc k)
  then obtain s where s: "downmix_sum b k = Inr s" "length s = buf_length b" by auto
  from Suc.prems copyFromChannel_ok [of k b] obtain d where
    d: "copyFromChannel b k = Inr d" "length d = buf_length b" by auto
  from s d show ?case by simp
qed

lemma downmixToMono_ok:
  assumes "buf_channels b \<noteq> []"
  shows "\<exists>monoData. downmixToMono b = Inr monoData \<and> length monoData = buf_length b"
proof (cases "numberOfChannels b = 1")
  case True
  with copyFromChannel_ok [of 0 b] show ?thesis by (simp add: downmixToMono_def)
next
  case False
  from assms have nz: "numberOfChannels b \<noteq> 0" by (simp add: numberOfChannels_def)
  from downmix_sum_ok [of "numberOfChannels b" b] obtain s where
    "downmix_sum b (numberOfChannels b) = Inr s" "length s = buf_length b" by auto
  with False nz show ?thesis by (simp add: downmixToMono_def)
qed

lemma detect_within: "segs_within (int (length d)) (detectSpeechSegments d sr thr m)"
proof (cases "d = []")
  case True
  then show ?thesis by (simp add: detect_empty segs_within_def)
next
  case False
  from detect_ordered [OF False, of sr thr m] ordered_from_bounds [of 0 "detectSpeechSegments d sr thr m"]
  show ?thesis unfolding segs_within_def by fastforce
qed

lemma build_ok:
  assumes v: "segs_within (int (length source)) segs" and ov: "0 \<le> ov"
  shows "\<exists>out. buildOutputBufferFromSegments source segs ov = Inr out \<and>
               int (length out) = total_upto segs ov (length segs)"
proof -
  consider "length segs = 0" | "length segs = 1" | "1 < length segs" by linarith
  then show ?thesis
  proof cases
    case 1
    then show ?thesis by (simp add: buildOutputBufferFromSegments_def)
  next
    case 2
    then obtain s e where se: "segs = [(s, e)]" by (cases segs) auto
    with v have "0 \<le> s" "s \<le> e" "e \<le> int (length source)" by (auto simp: segs_within_def)
    from subarray_within(2) [OF this] se show ?thesis
      by (simp add: buildOutputBufferFromSegments_def)
  next
    case 3
    let ?n = "length segs"
    let ?T = "total_upto segs ov ?n"
    have "total_upto segs ov 0 \<le> ?T" by (rule total_upto_mono [OF v]) simp_all
    then have T0: "0 \<le> ?T" by simp
    then have "int (length (replicate (nat ?T) (0::real))) = ?T" by simp
    from stitch_upto_ok [OF v ov this, of ?n] obtain out where
      "stitch_upto source segs ov (replicate (nat ?T) 0) ?n = Inr (out, ?T)"
      "length out = length (replicate (nat ?T) (0::real))" by auto
    with 3 T0 show ?thesis by (simp add: buildOutputBufferFromSegments_def Let_def)
  qed
qed

lemma build_bounded:
  assumes "buildOutputBufferFromSegments source segs ov = Inr out" "bounded source"
  shows "bounded out"
proof -
  consider "length segs = 0" | "length segs = 1" | "1 < length segs" by linarith
  then show ?thesis
  proof cases
    case 1
    with assms show ?thesis by (simp add: buildOutputBufferFromSegments_def bounded_def)
  next
    case 2
    with assms bounded_subarray [OF assms(2)] show ?thesis
      by (auto simp: buildOutputBufferFromSegments_def split: prod.splits)
  next
    case 3
    let ?T = "total_upto segs ov (length segs)"
    from 3 assms(1) obtain wp where
      st: "stitch_upto source segs ov (replicate (nat ?T) 0) (length segs) = Inr (out, wp)"
      by (auto simp: buildOutputBufferFromSegments_def Let_def split: if_splits sum.splits)
    have "bounded (replicate (nat ?T) 0)" by (simp add: bounded_def)
    from stitch_upto_bounded [OF st assms(2) this] show ?thesis .
  qed
qed

lemma build_single_full: "buildOutputBufferFromSegments source [(0, int (length source))] ov = Inr source"
  by (simp add: buildOutputBufferFromSegments_def subarray_def Let_def)

lemma detect_of_single_raw:
  "raw_segments d thr m = [seg] \<Longrightarrow> detectSpeechSegments d sr thr m = [seg]"
  by (simp add: detectSpeechSegments_def Let_def merge_step_def)

lemma process_mono_single:
  assumes "downmixToMono b = Inr monoData"
    and "detectSpeechSegments monoData (buf_sampleRate b)
           (case opt_silenceThreshold opts of None \<Rightarrow> DEFAULT_silenceThreshold | Some v \<Rightarrow> v)
           (msToSamples dbl
              (case opt_minSilenceMs opts of None \<Rightarrow> DEFAULT_minSilenceMs | Some v \<Rightarrow> v)
              (buf_sampleRate b)) = [(0, int (length monoData))]"
  shows "process_mono dbl b opts = Inr (createMonoBuffer monoData (buf_sampleRate b))"
  using assms by (simp add: process_mono_def Let_def)

lemma scan_never_silent:
  assumes "thr \<le> 0"
  shows "k \<le> length d \<Longrightarrow> scan_upto d thr m k = scan_init"
proof (induction k)
  case 0
  show ?case by simp
next
  case (Suc k)
  from assms have "\<not> \<bar>d ! k\<bar> < thr" by simp
  with Suc show ?case by (simp add: scan_step_def scan_init_def)
qed

lemma raw_segments_never_silent:
  assumes "thr \<le> 0"
  shows "raw_segments d thr m = [(0, int (length d))]"
  using scan_never_silent [OF assms, of "length d" d m]
  by (simp add: raw_segments_def Let_def scan_init_def)

lemma last_segment_positive:
  assumes "ordered_from lo segs" "segs \<noteq> []"
  shows "0 < seg_len segs (length segs - 1)"
proof -
  from assms(2) have "segs ! (length segs - 1) \<in> set segs" by simp
  from ordered_from_bounds [OF assms(1) this] show ?thesis by (simp add: seg_len_def)
qed

lemma process_mono_ok:
  assumes "buf_channels b \<noteq> []" "0 < buf_length b"
  shows "\<exists>monoData. process_mono dbl b opts = Inr (createMonoBuffer monoData (buf_sampleRate b)) \<and>
           0 < length monoData"
proof -
  from downmixToMono_ok [OF assms(1)] obtain md where
    m: "downmixToMono b = Inr md" and lm: "length md = buf_length b" by blast
  from lm assms(2) have ne: "md \<noteq> []" by auto
  define thr where
    "thr = (case opt_silenceThreshold opts of None \<Rightarrow> DEFAULT_silenceThreshold | Some v \<Rightarrow> v)"
  define minS where
    "minS = msToSamples dbl
       (case opt_minSilenceMs opts of None \<Rightarrow> DEFAULT_minSilenceMs | Some v \<Rightarrow> v)
       (buf_sampleRate b)"
  define ov where
    "ov = msToSamples dbl
       (case opt_overlapMs opts of None \<Rightarrow> DEFAULT_overlapMs | Some v \<Rightarrow> v) (buf_sampleRate b)"
  define segs where "segs = detectSpeechSegments md (buf_sampleRate b) thr minS"
  have w: "segs_within (int (length md)) segs" unfolding segs_def by (rule detect_within)
  have o: "0 \<le> ov" unfolding ov_def by (rule msToSamples_nonneg)
  from build_ok [OF w o] obtain out where
    out: "buildOutputBufferFromSegments md segs ov = Inr out"
      "int (length out) = total_upto segs ov (length segs)" by blast
  have sn: "segs \<noteq> []" unfolding segs_def by (rule detect_nonempty)
  have "ordered_from 0 segs" unfolding segs_def using detect_ordered [OF ne] by simp
  from last_segment_positive [OF this sn] have "0 < seg_len segs (length segs - 1)" .
  moreover from sn have k: "length segs - 1 < length segs" "Suc (length segs - 1) = length segs"
    by simp_all
  have "seg_len segs (length segs - 1) \<le> total_upto segs ov (Suc (length segs - 1))"
    by (rule total_upto_ge_len [OF w k(1)])
  then have "seg_len segs (length segs - 1) \<le> total_upto segs ov (length segs)"
    by (simp only: k(2))
  ultimately have "0 < int (length out)" using out(2) by linarith
  then have lo: "0 < length out" by linarith
  have pm: "process_mono dbl b opts =
      (if length segs \<le> 1 \<and> 0 < length segs \<and> fst (segs ! 0) = 0 \<and>
          snd (segs ! 0) = int (length md)
       then Inr (createMonoBuffer md (buf_sampleRate b))
       else then_do (buildOutputBufferFromSegments md segs ov)
              (\<lambda>stitchedData. Inr (createMonoBuffer stitchedData (buf_sampleRate b))))"
    using m by (simp add: process_mono_def Let_def thr_def minS_def ov_def segs_def)
  show ?thesis
  proof (cases "length segs \<le> 1 \<and> 0 < length segs \<and> fst (segs ! 0) = 0 \<and>
      snd (segs ! 0) = int (length md)")
    case True
    then have "process_mono dbl b opts = Inr (createMonoBuffer md (buf_sampleRate b))"
      unfolding pm by simp
    with ne show ?thesis by auto
  next
    case False
    then have "process_mono dbl b opts = Inr (createMonoBuffer out (buf_sampleRate b))"
      unfolding pm by (auto simp: out(1))
    with lo show ?thesis by auto
  qed
qed

lemma process_mono_never_silent:
  assumes "downmixToMono b = Inr md" "opt_silenceThreshold opts = Some thr" "thr \<le> 0"
  shows "process_mono dbl b opts = Inr (createMonoBuffer md (buf_sampleRate b))"
proof (rule process_mono_single [OF assms(1)])
  show "detectSpeechSegments md (buf_sampleRate b)
     (case opt_silenceThreshold opts of None \<Rightarrow> DEFAULT_silenceThreshold | Some v \<Rightarrow> v)
     (msToSamples dbl
        (case opt_minSilenceMs opts of None \<Rightarrow> DEFAULT_minSilenceMs | Some v \<Rightarrow> v)
        (buf_sampleRate b)) = [(0, int (length md))]"
    using assms(2) raw_segments_never_silent [OF assms(3)]
    by (simp add: detect_of_single_raw)
qed

lemma processAudioBuffer_encodes:
  assumes "process_mono dbl b opts = Inr (createMonoBuffer md sr)"
  shows "processAudioBuffer dbl b opts = Inr (wav_header sr (length md) @ concat (map pcm_bytes md))"
  using assms by (simp add: processAudioBuffer_def encoder_layout)

subsection \<open>Worked examples\<close>

lemma detect_example:
  "raw_segments [1/2, 1/2, 1/2, 0, 0, 0, 1/2] (1/100) 2 = [(0, 2), (6, 7)] \<and>
   detectSpeechSegments [1/2, 1/2, 1/2, 0, 0, 0, 1/2] 100 (1/100) 2 = [(0, 2), (6, 7)]"
  by (simp add: detectSpeechSegments_def raw_segments_def scan_step_def scan_init_def
      merge_step_def Let_def eval_nat_numeral)

lemma scan_example:
  "scan_upto [1/2, 1/2, 1/2, 0, 0, 0, 1/2] (1/100) 2 4 =
     \<lparr>segments = [], inSilence = False, silenceRun = 1, currentSpeechStart = 0\<rparr> \<and>
   scan_upto [1/2, 1/2, 1/2, 0, 0, 0, 1/2] (1/100) 2 5 =
     \<lparr>segments = [(0, 2)], inSilence = True, silenceRun = 2, currentSpeechStart = 0\<rparr>"
  by (simp add: scan_step_def scan_init_def Let_def eval_nat_numeral)

lemma stitch_example:
  "buildOutputBufferFromSegments [1, - 1, 0, 1, 1/2, - 1/2] [(0, 2), (3, 6)] 2 = Inr [1, - 1/4, - 1/2]"
  by (simp add: buildOutputBufferFromSegments_def subarray_def typed_set_def Let_def
      eval_nat_numeral)

lemma stitch_cursor_example:
  "stitch_upto [1, - 1, 0, 1, 1/2, - 1/2] [(0, 2), (3, 6)] 2 (replicate 3 0) 1 = Inr ([1, - 1, 0], 2) \<and>
   stitch_upto [1, - 1, 0, 1, 1/2, - 1/2] [(0, 2), (3, 6)] 2 (replicate 3 0) 2 = Inr ([1, - 1/4, - 1/2], 3)"
  by (simp add: subarray_def typed_set_def Let_def eval_nat_numeral)

lemma pipeline_example:
  "process_mono id \<lparr>buf_sampleRate = 8000, buf_length = 2, buf_channels = [[1/2, 1/4]]\<rparr>
     \<lparr>opt_silenceThreshold = Some (- 1), opt_minSilenceMs = Some (- 250), opt_overlapMs = Some (- 500)\<rparr>
   = Inr (createMonoBuffer [1/2, 1/4] 8000)"
  by (simp add: process_mono_def downmixToMono_def copyFromChannel_def numberOfChannels_def
      msToSamples_def detectSpeechSegments_def raw_segments_def scan_step_def scan_init_def
      merge_step_def Let_def eval_nat_numeral)

lemma default_example:
  "downmixToMono \<lparr>buf_sampleRate = 8000, buf_length = 2, buf_channels = [[1/2, 1/4]]\<rparr> = Inr [1/2, 1/4] \<and>
   detectSpeechSegments [1/2, 1/4] 8000 DEFAULT_silenceThreshold
      (msToSamples id DEFAULT_minSilenceMs 8000) = [(0, 2)]"
  by (simp add: downmixToMono_def copyFromChannel_def numberOfChannels_def
      msToSamples_def detectSpeechSegments_def raw_segments_def scan_step_def scan_init_def
      DEFAULT_silenceThreshold_def DEFAULT_minSilenceMs_def
      merge_step_def Let_def eval_nat_numeral)

lemma pcm_example: "floatTo16BitPCM [0, 0, 0, 0] 0 [1/8, - 1/2] = Inr [255, 15, 0, 192]"
  by (simp add: setInt16_def set_bytes_def u16le_def js_truncate_def Let_def)

lemma pcm_example2: "le_sint16 [255, 15] = 4095 \<and> le_sint16 [0, 192] = - 16384"
  by (simp add: le_sint16_def le_uint_def)

lemma header_example: "wav_header 8000 2 =
  [82, 73, 70, 70, 40, 0, 0, 0, 87, 65, 86, 69, 102, 109, 116, 32, 16, 0, 0, 0, 1, 0, 1, 0,
   64, 31, 0, 0, 128, 62, 0, 0, 2, 0, 16, 0, 100, 97, 116, 97, 4, 0, 0, 0]"
  by (simp add: wav_header_def ascii_def u32le_def u16le_def Let_def)

lemma pcm_bytes_example: "concat (map pcm_bytes [1, - 1]) = [255, 127, 0, 128]"
  by (simp add: pcm_bytes_def pcm_value_def u16le_def js_truncate_def Let_def)

section \<open>The claims\<close>

subsection \<open>PCM conversion\<close>

text \<open>
  Claim C1, as the code has it. \<open>floatTo16BitPCM\<close> clamps every sample to \<open>[-1, 1]\<close>; the
  clamped value \<open>s\<close> is scaled by 32768 when \<open>s < 0\<close> and by 32767 otherwise, and
  \<open>setInt16\<close> drops the fraction of the product (it truncates toward zero, it does not
  round). Reading the two bytes written for sample \<open>i\<close> back as a signed 16-bit integer
  gives \<open>\<lceil>s * 32768\<rceil>\<close> for \<open>s < 0\<close> and \<open>\<lfloor>s * 32767\<rfloor>\<close> for \<open>s \<ge> 0\<close>, whenever the samples fit
  into the view.
\<close>

theorem pcm_truncates:
  "offset + 2 * length input \<le> length view \<longrightarrow>
     (\<exists>view'. floatTo16BitPCM view offset input = Inr view' \<and> length view' = length view \<and>
        (\<forall>i<length input.
           le_sint16 (take 2 (drop (offset + 2 * i) view')) =
             (let s = max (- 1) (min 1 (input ! i))
              in if s < 0 then \<lceil>s * 32768\<rceil> else \<lfloor>s * 32767\<rfloor>)))"
proof
  assume a: "offset + 2 * length input \<le> length view"
  from floatTo16BitPCM_reads [OF a] obtain view' where
    v: "floatTo16BitPCM view offset input = Inr view'" "length view' = length view"
      "\<And>i. i < length input \<Longrightarrow> take 2 (drop (offset + 2 * i) view') = pcm_bytes (input ! i)"
    by blast
  have "le_sint16 (pcm_bytes y) = pcm_value y" for y
    unfolding pcm_bytes_def using pcm_value_range [of y] by (intro le_sint16_u16le) simp_all
  with v show "\<exists>view'. floatTo16BitPCM view offset input = Inr view' \<and> length view' = length view \<and>
        (\<forall>i<length input.
           le_sint16 (take 2 (drop (offset + 2 * i) view')) =
             (let s = max (- 1) (min 1 (input ! i))
              in if s < 0 then \<lceil>s * 32768\<rceil> else \<lfloor>s * 32767\<rfloor>))"
    by (auto simp: pcm_value_explicit [symmetric])
qed

text \<open>The theorem at a view of four bytes and the samples 1/8 and -1/2.\<close>

theorem pcm_truncates_witness:
  "0 + 2 * length [1/8, - 1/2 :: real] \<le> length [0, 0, 0, 0 :: byte] \<and>
   floatTo16BitPCM [0, 0, 0, 0] 0 [1/8, - 1/2] = Inr [255, 15, 0, 192] \<and>
   le_sint16 [255, 15] = 4095 \<and> le_sint16 [0, 192] = - 16384"
  using pcm_truncates [of 0 "[1/8, - 1/2]" "[0, 0, 0, 0]"] pcm_example pcm_example2
  by simp

text \<open>
  Rounding fails at the sample 1/8: the product 4095.875 is stored as 4095, and rounding
  it gives 4096.
\<close>

theorem pcm_rounding_counterexample:
  "floatTo16BitPCM [0, 0] 0 [1/8] = Inr [255, 15] \<and>
   le_sint16 [255, 15] \<noteq> round (max (- 1) (min 1 (1/8 :: real)) * 32767)"
  by (simp add: setInt16_def set_bytes_def u16le_def js_truncate_def Let_def
      le_sint16_def le_uint_def round_def)

subsection \<open>Errors\<close>

text \<open>
  Claim C2, as the code has it. \<open>processAudioBuffer\<close> does not validate the configuration
  and reports no InvalidConfiguration error. For every valid buffer (at least one channel,
  every channel as long as the buffer, at least one frame, a positive sample rate) and
  every configuration, negative values included, it returns the encoded container of a
  mono buffer with at least one frame at the sample rate of the input. A negative duration
  at a positive sample rate becomes 0 samples (\<open>dbl\<close>, the rounding to a double, makes no
  number \<open>\<le> 0\<close> positive). With a threshold \<open>\<le> 0\<close> no sample is silent, and the mono buffer
  that is encoded holds the downmixed samples unchanged. What the entry point does with an
  invalid buffer is not stated here.
\<close>

theorem invalid_configuration_not_reported:
  "(ms < 0 \<and> 0 < sampleRate \<and> (\<forall>x. x \<le> 0 \<longrightarrow> dbl x \<le> 0) \<longrightarrow>
      msToSamples dbl ms sampleRate = 0) \<and>
   (buf_channels audioBuffer \<noteq> [] \<and>
    (\<forall>c \<in> set (buf_channels audioBuffer). length c = buf_length audioBuffer) \<and>
    0 < buf_length audioBuffer \<and> 0 < buf_sampleRate audioBuffer \<longrightarrow>
      (\<exists>monoData.
         process_mono dbl audioBuffer opts =
           Inr (createMonoBuffer monoData (buf_sampleRate audioBuffer)) \<and>
         0 < length monoData \<and>
         processAudioBuffer dbl audioBuffer opts =
           Inr (wav_header (buf_sampleRate audioBuffer) (length monoData) @
                concat (map pcm_bytes monoData)) \<and>
         (\<forall>thr. opt_silenceThreshold opts = Some thr \<and> thr \<le> 0 \<longrightarrow>
            downmixToMono audioBuffer = Inr monoData)))"
proof (intro conjI impI)
  assume "ms < 0 \<and> 0 < sampleRate \<and> (\<forall>x. x \<le> 0 \<longrightarrow> dbl x \<le> 0)"
  then show "msToSamples dbl ms sampleRate = 0"
    using msToSamples_negative [of ms sampleRate dbl] by blast
next
  assume a: "buf_channels audioBuffer \<noteq> [] \<and>
    (\<forall>c \<in> set (buf_channels audioBuffer). length c = buf_length audioBuffer) \<and>
    0 < buf_length audioBuffer \<and> 0 < buf_sampleRate audioBuffer"
  then have ch: "buf_channels audioBuffer \<noteq> []" and fr: "0 < buf_length audioBuffer"
    by simp_all
  let ?sr = "buf_sampleRate audioBuffer"
  show "\<exists>monoData.
         process_mono dbl audioBuffer opts = Inr (createMonoBuffer monoData ?sr) \<and>
         0 < length monoData \<and>
         processAudioBuffer dbl audioBuffer opts =
           Inr (wav_header ?sr (length monoData) @ concat (map pcm_bytes monoData)) \<and>
         (\<forall>thr. opt_silenceThreshold opts = Some thr \<and> thr \<le> 0 \<longrightarrow>
            downmixToMono audioBuffer = Inr monoData)"
  proof (cases "\<exists>thr. opt_silenceThreshold opts = Some thr \<and> thr \<le> 0")
    case True
    then obtain thr where t: "opt_silenceThreshold opts = Some thr" "thr \<le> 0" by blast
    from downmixToMono_ok [OF ch] obtain md where
      m: "downmixToMono audioBuffer = Inr md" and lm: "length md = buf_length audioBuffer"
      by blast
    from lm fr have l: "0 < length md" by simp
    have p: "process_mono dbl audioBuffer opts = Inr (createMonoBuffer md ?sr)"
      by (rule process_mono_never_silent [OF m t])
    from p l m processAudioBuffer_encodes [OF p] show ?thesis by blast
  next
    case False
    from process_mono_ok [OF ch fr, of dbl opts] obtain md where
      p: "process_mono dbl audioBuffer opts = Inr (createMonoBuffer md ?sr)"
      and l: "0 < length md" by blast
    from p l False processAudioBuffer_encodes [OF p] show ?thesis by blast
  qed
qed

text \<open>
  The theorem at a mono buffer of two samples at 8000 Hz, with the threshold -1 and the
  durations -250 ms and -500 ms; on these values the double arithmetic is exact.
\<close>

theorem invalid_configuration_not_reported_witness:
  "((- 250 :: real) < 0 \<and> (0 :: int) < 8000 \<and> id (- 250 / 1000 :: real) \<le> 0) \<and>
   msToSamples id (- 250) 8000 = 0 \<and>
   (buf_channels \<lparr>buf_sampleRate = 8000, buf_length = 2, buf_channels = [[1/2, 1/4]]\<rparr> \<noteq> [] \<and>
    length [1/2, 1/4 :: real] =
      buf_length \<lparr>buf_sampleRate = 8000, buf_length = 2, buf_channels = [[1/2, 1/4]]\<rparr> \<and>
    0 < buf_length \<lparr>buf_sampleRate = 8000, buf_length = 2, buf_channels = [[1/2, 1/4]]\<rparr> \<and>
    0 < buf_sampleRate \<lparr>buf_sampleRate = 8000, buf_length = 2, buf_channels = [[1/2, 1/4]]\<rparr>) \<and>
   \<not> isl (processAudioBuffer id
     \<lparr>buf_sampleRate = 8000, buf_length = 2, buf_channels = [[1/2, 1/4]]\<rparr>
     \<lparr>opt_silenceThreshold = Some (- 1), opt_minSilenceMs = Some (- 250),
      opt_overlapMs = Some (- 500)\<rparr>)"
proof -
  let ?b = "\<lparr>buf_sampleRate = 8000, buf_length = 2, buf_channels = [[1/2, 1/4]]\<rparr>"
  let ?o = "\<lparr>opt_silenceThreshold = Some (- 1), opt_minSilenceMs = Some (- 250),
      opt_overlapMs = Some (- 500)\<rparr>"
  have h1: "(- 250 :: real) < 0 \<and> (0 :: int) < 8000 \<and> (\<forall>x :: real. x \<le> 0 \<longrightarrow> id x \<le> 0)"
    by simp
  have h2: "buf_channels ?b \<noteq> [] \<and> (\<forall>c \<in> set (buf_channels ?b). length c = buf_length ?b) \<and>
      0 < buf_length ?b \<and> 0 < buf_sampleRate ?b"
    by simp
  note t = invalid_configuration_not_reported [of "- 250" 8000 id ?b ?o]
  from t h1 have "msToSamples id (- 250) 8000 = 0" by blast
  moreover from t h2 have "\<not> isl (processAudioBuffer id ?b ?o)" by auto
  ultimately show ?thesis by simp
qed

text \<open>
  An invalid configuration is not reported: with a negative threshold and negative
  durations the pipeline returns the container of the unchanged samples.
\<close>

theorem invalid_configuration_counterexample:
  "processAudioBuffer id
     \<lparr>buf_sampleRate = 8000, buf_length = 2, buf_channels = [[1/2, 1/4]]\<rparr>
     \<lparr>opt_silenceThreshold = Some (- 1), opt_minSilenceMs = Some (- 250),
      opt_overlapMs = Some (- 500)\<rparr>
   = Inr (wav_header 8000 2 @ concat (map pcm_bytes [1/2, 1/4]))"
proof -
  have l: "length [1/2, 1/4 :: real] = 2" by simp
  show ?thesis
    unfolding processAudioBuffer_def pipeline_example then_do_Inr encoder_layout l ..
qed

subsection \<open>Segments\<close>

text \<open>
  Claim C3, as the code has it. For a mono buffer of \<open>N > 0\<close> samples every segment of the
  list before merging and of the list after merging satisfies \<open>0 \<le> start < end \<le> N\<close>. For
  the empty buffer the fallback makes both lists the single zero-length segment \<open>[0, 0)\<close>.
\<close>

theorem segment_bounds:
  "(channelData \<noteq> [] \<longrightarrow>
      (\<forall>seg \<in> set (raw_segments channelData silenceThreshold minSilenceSamples).
         0 \<le> fst seg \<and> fst seg < snd seg \<and> snd seg \<le> int (length channelData)) \<and>
      (\<forall>seg \<in> set (detectSpeechSegments channelData sampleRate silenceThreshold minSilenceSamples).
         0 \<le> fst seg \<and> fst seg < snd seg \<and> snd seg \<le> int (length channelData))) \<and>
   (channelData = [] \<longrightarrow>
      raw_segments channelData silenceThreshold minSilenceSamples = [(0, 0)] \<and>
      detectSpeechSegments channelData sampleRate silenceThreshold minSilenceSamples = [(0, 0)])"
proof (cases "channelData = []")
  case True
  then show ?thesis by (simp add: detect_empty raw_segments_empty)
next
  case False
  have r: "0 \<le> fst seg \<and> fst seg < snd seg \<and> snd seg \<le> int (length channelData)"
    if "seg \<in> set (raw_segments channelData silenceThreshold minSilenceSamples)" for seg
    using raw_segments_ordered [OF False, of silenceThreshold minSilenceSamples]
      ordered_from_bounds [OF _ that, of 0] by auto
  have m: "0 \<le> fst seg \<and> fst seg < snd seg \<and> snd seg \<le> int (length channelData)"
    if "seg \<in> set (detectSpeechSegments channelData sampleRate silenceThreshold minSilenceSamples)" for seg
    using detect_ordered [OF False, of sampleRate silenceThreshold minSilenceSamples]
      ordered_from_bounds [OF _ that, of 0] by auto
  from False r m show ?thesis by blast
qed

text \<open>The theorem at a buffer of seven samples with a silence of three.\<close>

theorem segment_bounds_witness:
  "[1/2, 1/2, 1/2, 0, 0, 0, 1/2] \<noteq> ([] :: real list) \<and>
   detectSpeechSegments [1/2, 1/2, 1/2, 0, 0, 0, 1/2] 100 (1/100) 2 = [(0, 2), (6, 7)] \<and>
   0 \<le> fst (detectSpeechSegments [1/2, 1/2, 1/2, 0, 0, 0, 1/2] 100 (1/100) 2 ! 1) \<and>
   fst (detectSpeechSegments [1/2, 1/2, 1/2, 0, 0, 0, 1/2] 100 (1/100) 2 ! 1) <
     snd (detectSpeechSegments [1/2, 1/2, 1/2, 0, 0, 0, 1/2] 100 (1/100) 2 ! 1) \<and>
   snd (detectSpeechSegments [1/2, 1/2, 1/2, 0, 0, 0, 1/2] 100 (1/100) 2 ! 1) \<le> int (length [1/2, 1/2, 1/2, 0, 0, 0, 1/2])"
  using segment_bounds [of "[1/2, 1/2, 1/2, 0, 0, 0, 1/2]" "1/100" 2 100] detect_example
  by simp

text \<open>The empty buffer gives a zero-length segment.\<close>

theorem empty_buffer_counterexample:
  "detectSpeechSegments [] 16000 (15/1000) 3200 = [(0, 0)] \<and>
   \<not> fst (detectSpeechSegments [] 16000 (15/1000) 3200 ! 0)
       < snd (detectSpeechSegments [] 16000 (15/1000) 3200 ! 0)"
  by (simp add: detect_empty)

subsection \<open>The pipeline on a single full segment\<close>

text \<open>
  Claim C4. When the segmenter gives exactly one segment \<open>[0, N)\<close> spanning the downmixed
  buffer (before merging, or as the list \<open>detectSpeechSegments\<close> returns), the mono buffer
  that \<open>processAudioBuffer\<close> encodes holds the downmixed samples unchanged; and stitching
  that single segment copies the source without any crossfade.
\<close>

theorem single_full_segment_unchanged:
  "downmixToMono audioBuffer = Inr monoData \<and>
   (raw_segments monoData
      (case opt_silenceThreshold opts of None \<Rightarrow> DEFAULT_silenceThreshold | Some v \<Rightarrow> v)
      (msToSamples dbl
         (case opt_minSilenceMs opts of None \<Rightarrow> DEFAULT_minSilenceMs | Some v \<Rightarrow> v)
         (buf_sampleRate audioBuffer)) = [(0, int (length monoData))] \<or>
    detectSpeechSegments monoData (buf_sampleRate audioBuffer)
      (case opt_silenceThreshold opts of None \<Rightarrow> DEFAULT_silenceThreshold | Some v \<Rightarrow> v)
      (msToSamples dbl
         (case opt_minSilenceMs opts of None \<Rightarrow> DEFAULT_minSilenceMs | Some v \<Rightarrow> v)
         (buf_sampleRate audioBuffer)) = [(0, int (length monoData))]) \<longrightarrow>
   process_mono dbl audioBuffer opts =
     Inr (createMonoBuffer monoData (buf_sampleRate audioBuffer)) \<and>
   buf_channels (createMonoBuffer monoData (buf_sampleRate audioBuffer)) = [monoData] \<and>
   buildOutputBufferFromSegments monoData [(0, int (length monoData))] overlapSamples =
     Inr monoData"
  using process_mono_single [of audioBuffer monoData opts dbl] detect_of_single_raw
    build_single_full [of monoData overlapSamples]
  by (auto simp: createMonoBuffer_def)

text \<open>
  The theorem at a mono buffer of two loud samples with the default options; the double
  product of 200 / 1000 and 8000 is 1600.
\<close>

theorem single_full_segment_unchanged_witness:
  "downmixToMono \<lparr>buf_sampleRate = 8000, buf_length = 2, buf_channels = [[1/2, 1/4]]\<rparr> =
     Inr [1/2, 1/4] \<and>
   detectSpeechSegments [1/2, 1/4] 8000 DEFAULT_silenceThreshold
     (msToSamples id DEFAULT_minSilenceMs 8000) = [(0, 2)] \<and>
   process_mono id \<lparr>buf_sampleRate = 8000, buf_length = 2, buf_channels = [[1/2, 1/4]]\<rparr>
     \<lparr>opt_silenceThreshold = None, opt_minSilenceMs = None, opt_overlapMs = None\<rparr> =
     Inr (createMonoBuffer [1/2, 1/4] 8000)"
  using single_full_segment_unchanged
    [of "\<lparr>buf_sampleRate = 8000, buf_length = 2, buf_channels = [[1/2, 1/4]]\<rparr>" "[1/2, 1/4]"
        "\<lparr>opt_silenceThreshold = None, opt_minSilenceMs = None, opt_overlapMs = None\<rparr>" id 0]
    default_example
  by simp

subsection \<open>The stitcher\<close>

text \<open>
  Claim C5. For a list of more than one segment lying inside the source buffer and
  \<open>overlapSamples \<ge> 0\<close>, the stitcher returns an array whose length is the sum of the
  segment lengths minus, for every adjacent pair, \<open>min(overlapSamples, len(previous),
  len(current))\<close>, each boundary once; and after each of the first \<open>k\<close> segments the write
  cursor is at the value of the same formula for these \<open>k\<close> segments.
\<close>

theorem stitched_length_and_cursor:
  "1 < length segs \<and> 0 \<le> overlapSamples \<and> segs_within (int (length source)) segs \<longrightarrow>
     (\<exists>out. buildOutputBufferFromSegments source segs overlapSamples = Inr out \<and>
        int (length out) = stitched_length segs overlapSamples (length segs) \<and>
        (\<forall>k \<le> length segs.
           \<exists>written. stitch_upto source segs overlapSamples (replicate (length out) 0) k =
              Inr (written, stitched_length segs overlapSamples k)))"
proof
  assume a: "1 < length segs \<and> 0 \<le> overlapSamples \<and> segs_within (int (length source)) segs"
  then have v: "segs_within (int (length source)) segs" and ov: "0 \<le> overlapSamples" by auto
  from build_ok [OF v ov] obtain out where
    out: "buildOutputBufferFromSegments source segs overlapSamples = Inr out"
      "int (length out) = total_upto segs overlapSamples (length segs)" by auto
  then have l0: "int (length (replicate (length out) (0::real))) =
      total_upto segs overlapSamples (length segs)" by simp
  have "\<exists>written. stitch_upto source segs overlapSamples (replicate (length out) 0) k =
          Inr (written, stitched_length segs overlapSamples k)" if "k \<le> length segs" for k
    using stitch_upto_ok [OF v ov l0 that] by (auto simp: total_upto_formula)
  with out show "\<exists>out. buildOutputBufferFromSegments source segs overlapSamples = Inr out \<and>
        int (length out) = stitched_length segs overlapSamples (length segs) \<and>
        (\<forall>k \<le> length segs.
           \<exists>written. stitch_upto source segs overlapSamples (replicate (length out) 0) k =
              Inr (written, stitched_length segs overlapSamples k))"
    by (auto simp: total_upto_formula)
qed

text \<open>
  The theorem at a source of six samples, the segments \<open>[0, 2)\<close> and \<open>[3, 6)\<close> and an overlap
  of two samples: three output samples, the cursor at 2 and then at 3.
\<close>

theorem stitched_length_and_cursor_witness:
  "(1 < length [(0, 2), (3, 6) :: segment] \<and> (0 :: int) \<le> 2 \<and>
    segs_within (int (length [1, - 1, 0, 1, 1/2, - 1/2 :: real])) [(0, 2), (3, 6)]) \<and>
   buildOutputBufferFromSegments [1, - 1, 0, 1, 1/2, - 1/2] [(0, 2), (3, 6)] 2 =
     Inr [1, - 1/4, - 1/2] \<and>
   (stitch_upto [1, - 1, 0, 1, 1/2, - 1/2] [(0, 2), (3, 6)] 2 (replicate 3 0) 1 =
      Inr ([1, - 1, 0], 2) \<and>
    stitch_upto [1, - 1, 0, 1, 1/2, - 1/2] [(0, 2), (3, 6)] 2 (replicate 3 0) 2 =
      Inr ([1, - 1/4, - 1/2], 3)) \<and>
   (stitched_length [(0, 2), (3, 6)] 2 1 = 2 \<and> stitched_length [(0, 2), (3, 6)] 2 2 = 3)"
proof -
  have h: "1 < length [(0, 2), (3, 6) :: segment] \<and> (0 :: int) \<le> 2 \<and>
      segs_within (int (length [1, - 1, 0, 1, 1/2, - 1/2 :: real])) [(0, 2), (3, 6)]"
    by (simp add: segs_within_def)
  have f: "stitched_length [(0, 2), (3, 6)] 2 1 = 2 \<and> stitched_length [(0, 2), (3, 6)] 2 2 = 3"
    by (simp add: stitched_length_def seg_len_def eval_nat_numeral)
  from stitched_length_and_cursor [of "[(0, 2), (3, 6)]" 2 "[1, - 1, 0, 1, 1/2, - 1/2]"] h
  have "\<exists>out. buildOutputBufferFromSegments [1, - 1, 0, 1, 1/2, - 1/2] [(0, 2), (3, 6)] 2 =
      Inr out \<and> int (length out) = stitched_length [(0, 2), (3, 6)] 2 (length [(0, 2), (3, 6) :: segment])"
    by blast
  with h f stitch_example stitch_cursor_example show ?thesis by blast
qed

subsection \<open>The scan\<close>

text \<open>
  Claim C6. At a sample \<open>i\<close> with \<open>\<bar>sample i\<bar> < silenceThreshold\<close> the scan increments the
  silence counter; when the scan is not in silence and the counter has reached
  \<open>minSilenceSamples\<close>, it goes into silence and closes the segment
  \<open>[speechStart, i - silenceRun)\<close> exactly when that segment has positive length. A sample
  at or above the threshold is not silent: it resets the counter and leaves the silence.
  When the scan ends outside silence, the final segment \<open>[speechStart, N)\<close> is closed;
  otherwise the list is the one of the scan, or \<open>[0, N)\<close> alone when the scan closed none.
\<close>

theorem scan_behaviour:
  "(i < length channelData \<longrightarrow>
     (let st = scan_upto channelData silenceThreshold minSilenceSamples i;
          st' = scan_upto channelData silenceThreshold minSilenceSamples (Suc i);
          run' = silenceRun st + 1
      in (\<bar>channelData ! i\<bar> < silenceThreshold \<longrightarrow>
            silenceRun st' = run' \<and> currentSpeechStart st' = currentSpeechStart st \<and>
            (if \<not> inSilence st \<and> minSilenceSamples \<le> run'
             then inSilence st' \<and>
                  segments st' =
                    (if currentSpeechStart st < int i - run'
                     then segments st @ [(currentSpeechStart st, int i - run')]
                     else segments st)
             else inSilence st' = inSilence st \<and> segments st' = segments st)) \<and>
         (\<not> \<bar>channelData ! i\<bar> < silenceThreshold \<longrightarrow>
            silenceRun st' = 0 \<and> \<not> inSilence st' \<and> segments st' = segments st \<and>
            currentSpeechStart st' =
              (if inSilence st then int i else currentSpeechStart st)))) \<and>
   (let fin = scan_upto channelData silenceThreshold minSilenceSamples (length channelData)
    in raw_segments channelData silenceThreshold minSilenceSamples =
         (if \<not> inSilence fin
          then segments fin @ [(currentSpeechStart fin, int (length channelData))]
          else if segments fin = [] then [(0, int (length channelData))]
          else segments fin))"
proof -
  let ?scan = "scan_upto channelData silenceThreshold minSilenceSamples"
  have inv: "scan_inv k (?scan k)" for k by (rule scan_inv_upto)
  have a: "0 \<le> currentSpeechStart (?scan i)"
    using inv [of i] by (simp add: scan_inv_def)
  have tail: "currentSpeechStart (?scan (length channelData)) < int (length channelData) \<or>
      channelData = []"
    using inv [of "length channelData"] by (auto simp: scan_inv_def)
  have e: "?scan (length channelData) = scan_init" if "channelData = []"
    using that by simp
  show ?thesis
    using a tail e
    by (auto simp: scan_step_def Let_def raw_segments_def scan_init_def)
qed

text \<open>
  The theorem at a buffer of seven samples, at index 4: the second silent sample
  reaches \<open>minSilenceSamples = 2\<close> and closes \<open>[0, 2)\<close>.
\<close>

theorem scan_behaviour_witness:
  "4 < length [1/2, 1/2, 1/2, 0, 0, 0, 1/2 :: real] \<and>
   \<bar>[1/2, 1/2, 1/2, 0, 0, 0, 1/2 :: real] ! 4\<bar> < 1/100 \<and>
   \<not> inSilence (scan_upto [1/2, 1/2, 1/2, 0, 0, 0, 1/2] (1/100) 2 4) \<and>
   2 \<le> silenceRun (scan_upto [1/2, 1/2, 1/2, 0, 0, 0, 1/2] (1/100) 2 4) + 1 \<and>
   segments (scan_upto [1/2, 1/2, 1/2, 0, 0, 0, 1/2] (1/100) 2 (Suc 4)) = [(0, 2)] \<and>
   raw_segments [1/2, 1/2, 1/2, 0, 0, 0, 1/2] (1/100) 2 = [(0, 2), (6, 7)]"
  using scan_behaviour [of 4 "[1/2, 1/2, 1/2, 0, 0, 0, 1/2]" "1/100" 2] scan_example detect_example
  by (simp add: Let_def)

subsection \<open>The merger\<close>

text \<open>
  Claim C7. \<open>detectSpeechSegments\<close> always merges, with the gap
  \<open>\<lfloor>sampleRate * 0.03\<rfloor>\<close> that depends on the sample rate alone; the merge loop computes
  what the merger of section 4.3 describes (a segment whose gap to the previously accepted
  segment is at most the merge gap extends that segment's end, any other is appended);
  and the result has at most as many entries as the list it merges.
\<close>

theorem merger_refines_spec:
  "detectSpeechSegments channelData sampleRate silenceThreshold minSilenceSamples =
     spec_merge \<lfloor>real_of_int sampleRate * 0.03\<rfloor>
       (raw_segments channelData silenceThreshold minSilenceSamples)
   \<and> foldl (merge_step gap) [] segs = spec_merge gap segs
   \<and> length (foldl (merge_step gap) [] segs) \<le> length segs"
proof -
  have loop: "foldl (merge_step g) [] xs = spec_merge g xs" for g xs
    by (rule merge_loop_spec)
  have "detectSpeechSegments channelData sampleRate silenceThreshold minSilenceSamples =
      foldl (merge_step \<lfloor>real_of_int sampleRate * 0.03\<rfloor>) []
        (raw_segments channelData silenceThreshold minSilenceSamples)"
    by (simp add: detectSpeechSegments_def Let_def)
  moreover have "length (foldl (merge_step gap) [] segs) \<le> length segs"
    unfolding loop by (rule length_spec_merge)
  ultimately show ?thesis by (simp add: loop)
qed

text \<open>The theorem at a gap of 4 samples: merged at 8000 Hz, kept apart at 100 Hz.\<close>

theorem merger_refines_spec_witness:
  "detectSpeechSegments [1/2, 1/2, 1/2, 0, 0, 0, 1/2] 100 (1/100) 2 = [(0, 2), (6, 7)] \<and>
   detectSpeechSegments [1/2, 1/2, 1/2, 0, 0, 0, 1/2] 8000 (1/100) 2 = [(0, 7)] \<and>
   length (foldl (merge_step 240) [] [(0, 2), (6, 7)]) \<le> length [(0, 2), (6, 7) :: segment]"
  using merger_refines_spec [of "[1/2, 1/2, 1/2, 0, 0, 0, 1/2]" 8000 "1/100" 2 240 "[(0, 2), (6, 7)]"]
    merger_refines_spec [of "[1/2, 1/2, 1/2, 0, 0, 0, 1/2]" 100 "1/100" 2 3 "[(0, 2), (6, 7)]"] detect_example
  by simp

subsection \<open>The container\<close>

text \<open>
  Claim C8. For a mono buffer of \<open>sampleCount\<close> samples the encoder returns the 44 bytes of
  the header of section 6 (\<open>wav_header\<close>: "RIFF", 36 + dataSize, "WAVE", "fmt ", 16, audio
  format 1, channel count 1, the sample rate, the byte rate sampleRate * 2, block align 2,
  16 bits per sample, "data", dataSize = sampleCount * 2; multi-byte fields little-endian)
  followed by exactly dataSize bytes, two for each sample. A 32-bit field holds a value
  below \<open>2 ^ 32\<close> and a 16-bit field a value below \<open>2 ^ 16\<close> as it is, and the two bytes of a
  sample read back as its signed 16-bit value.
\<close>

theorem wav_container_layout:
  "audioBufferToWavBlob (createMonoBuffer channelData sampleRate) =
     Inr (wav_header sampleRate (length channelData) @ concat (map pcm_bytes channelData)) \<and>
   length (wav_header sampleRate (length channelData)) = 44 \<and>
   length (concat (map pcm_bytes channelData)) = 2 * length channelData \<and>
   (0 \<le> v \<and> v < 4294967296 \<longrightarrow> int (le_uint (u32le v)) = v) \<and>
   (0 \<le> v \<and> v < 65536 \<longrightarrow> int (le_uint (u16le v)) = v) \<and>
   le_sint16 (pcm_bytes x) = pcm_value x"
proof -
  have "le_sint16 (pcm_bytes x) = pcm_value x"
    unfolding pcm_bytes_def using pcm_value_range [of x] by (intro le_sint16_u16le) simp_all
  then show ?thesis
    by (simp add: encoder_layout length_wav_header length_pcm_data le_uint_u32le le_uint_u16le)
qed

text \<open>The theorem at the samples 1 and -1 at 8000 Hz: 48 bytes.\<close>

theorem wav_container_layout_witness:
  "(0 :: int) \<le> 8000 \<and> (8000 :: int) < 4294967296 \<and> int (le_uint (u32le 8000)) = 8000 \<and>
   (0 :: int) \<le> 16 \<and> (16 :: int) < 65536 \<and> int (le_uint (u16le 16)) = 16 \<and>
   audioBufferToWavBlob (createMonoBuffer [1, - 1] 8000) =
     Inr ([82, 73, 70, 70, 40, 0, 0, 0, 87, 65, 86, 69, 102, 109, 116, 32, 16, 0, 0, 0,
           1, 0, 1, 0, 64, 31, 0, 0, 128, 62, 0, 0, 2, 0, 16, 0, 100, 97, 116, 97, 4, 0, 0, 0] @
          [255, 127, 0, 128])"
  using wav_container_layout [of "[1, - 1]" 8000 8000 1]
    wav_container_layout [of "[1, - 1]" 8000 16 1]
    header_example [unfolded numeral_2_eq_2] pcm_bytes_example
  by simp

subsection \<open>The merged list\<close>

text \<open>
  Claim C9. For every mono buffer the list that \<open>detectSpeechSegments\<close> returns
  (segmentation followed by merging) is not empty, and for every adjacent pair the first
  segment ends where the second starts or before, and starts before it.
\<close>

theorem segments_nonempty_ordered:
  "detectSpeechSegments channelData sampleRate silenceThreshold minSilenceSamples \<noteq> [] \<and>
   (\<forall>i. Suc i < length (detectSpeechSegments channelData sampleRate silenceThreshold minSilenceSamples) \<longrightarrow>
      snd (detectSpeechSegments channelData sampleRate silenceThreshold minSilenceSamples ! i)
        \<le> fst (detectSpeechSegments channelData sampleRate silenceThreshold minSilenceSamples ! Suc i) \<and>
      fst (detectSpeechSegments channelData sampleRate silenceThreshold minSilenceSamples ! i)
        < fst (detectSpeechSegments channelData sampleRate silenceThreshold minSilenceSamples ! Suc i))"
proof (cases "channelData = []")
  case True
  then show ?thesis by (simp add: detect_empty)
next
  case False
  from detect_ordered [OF False]
  have "ordered_from 0 (detectSpeechSegments channelData sampleRate silenceThreshold minSilenceSamples)"
    by simp
  then show ?thesis
    using ordered_from_adjacent detect_nonempty by blast
qed

text \<open>The theorem at a buffer of seven samples with two segments.\<close>

theorem segments_nonempty_ordered_witness:
  "Suc 0 < length (detectSpeechSegments [1/2, 1/2, 1/2, 0, 0, 0, 1/2] 100 (1/100) 2) \<and>
   snd (detectSpeechSegments [1/2, 1/2, 1/2, 0, 0, 0, 1/2] 100 (1/100) 2 ! 0)
     \<le> fst (detectSpeechSegments [1/2, 1/2, 1/2, 0, 0, 0, 1/2] 100 (1/100) 2 ! Suc 0)"
  using segments_nonempty_ordered [of "[1/2, 1/2, 1/2, 0, 0, 0, 1/2]" 100 "1/100" 2] detect_example
  by simp

subsection \<open>Amplitude\<close>

text \<open>
  Claim C10. When every sample of the source lies in \<open>[-1, 1]\<close>, the segments lie inside
  the source and \<open>overlapSamples \<ge> 0\<close>, the stitcher returns an array whose samples all lie
  in \<open>[-1, 1]\<close>: a crossfaded sample is \<open>a * (1 - fadeIn) + b * fadeIn\<close> with \<open>fadeIn = i / ov\<close>
  in \<open>[0, 1)\<close>, every other sample is copied.
\<close>

theorem stitch_amplitude_bounded:
  "(\<forall>x \<in> set source. - 1 \<le> x \<and> x \<le> 1) \<and> segs_within (int (length source)) segs \<and>
   0 \<le> overlapSamples \<longrightarrow>
     (\<exists>out. buildOutputBufferFromSegments source segs overlapSamples = Inr out \<and>
        (\<forall>y \<in> set out. - 1 \<le> y \<and> y \<le> 1))"
proof
  assume a: "(\<forall>x \<in> set source. - 1 \<le> x \<and> x \<le> 1) \<and>
    segs_within (int (length source)) segs \<and> 0 \<le> overlapSamples"
  then have b: "bounded source" by (simp add: bounded_def)
  from a build_ok [of source segs overlapSamples] obtain out where
    out: "buildOutputBufferFromSegments source segs overlapSamples = Inr out" by auto
  from build_bounded [OF out b] out
  show "\<exists>out. buildOutputBufferFromSegments source segs overlapSamples = Inr out \<and>
        (\<forall>y \<in> set out. - 1 \<le> y \<and> y \<le> 1)"
    by (auto simp: bounded_def)
qed

text \<open>
  The theorem at a source of six samples, the segments \<open>[0, 2)\<close> and \<open>[3, 6)\<close> and an overlap
  of two samples: the crossfaded sample is -1/4.
\<close>

theorem stitch_amplitude_bounded_witness:
  "(- 1 \<le> (1 :: real) \<and> (1 :: real) \<le> 1) \<and>
   segs_within (int (length [1, - 1, 0, 1, 1/2, - 1/2 :: real])) [(0, 2), (3, 6)] \<and>
   (0 :: int) \<le> 2 \<and>
   buildOutputBufferFromSegments [1, - 1, 0, 1, 1/2, - 1/2] [(0, 2), (3, 6)] 2 =
     Inr [1, - 1/4, - 1/2] \<and>
   - 1 \<le> (- 1/4 :: real) \<and> (- 1/4 :: real) \<le> 1"
  using stitch_amplitude_bounded [of "[1, - 1, 0, 1, 1/2, - 1/2]" "[(0, 2), (3, 6)]" 2]
    stitch_example
  by (simp add: segs_within_def)
end
